theory Spec2Isabelle
  imports Complex_Main "HOL-Library.Log_Nat" "HOL-Library.AList"
begin

section \<open>Period concatenation of DASH manifests (streamer/periodconcat_node.py)\<close>

text \<open>
  The development follows \<^verbatim>\<open>PeriodConcatNode\<close>: the duration helper class
  \<^verbatim>\<open>ISO8601\<close> (parse, \<^verbatim>\<open>__str__\<close>, \<^verbatim>\<open>__add__\<close>), the path functions of
  \<^verbatim>\<open>os.path\<close> that the merge calls (POSIX flavour), the element tree the manifests are
  parsed into, \<^verbatim>\<open>_dash_concat\<close> and \<^verbatim>\<open>_thread_single_pass\<close>.
  Python exceptions are values of the type \<open>error\<close>; a function that can raise returns
  \<open>error + 'a\<close> with \<open>Inl\<close> for the exception.
\<close>

datatype error =
    AssertionError
  | ValueError
  | KeyError
  | IndexError
  | OverflowError
  | OSError
  | RuntimeError nat

subsection \<open>Python numbers and their text\<close>

text \<open>
  \<^verbatim>\<open>[0-9]\<close> of the pattern, \<^verbatim>\<open>int(text)\<close> on a run of such digits and \<^verbatim>\<open>str(i)\<close> for an
  unbounded Python integer. CPython 3.11 limits the conversion between \<^verbatim>\<open>int\<close> and decimal
  text: with the default setting \<^verbatim>\<open>sys.get_int_max_str_digits() == 4300\<close>, \<^verbatim>\<open>int\<close> of more
  than 4300 digit characters and \<^verbatim>\<open>str\<close> of an int of more than 4300 decimal digits raise
  ValueError.
\<close>

definition int_max_str_digits :: nat where
  "int_max_str_digits = 4300"

definition is_digit :: "char \<Rightarrow> bool" where
  "is_digit c = (c \<in> set ''0123456789'')"

definition digit_val :: "char \<Rightarrow> nat" where
  "digit_val c = of_char c - 48"

definition digit_char :: "nat \<Rightarrow> char" where
  "digit_char n = ''0123456789'' ! n"

definition nat_of_digits :: "string \<Rightarrow> nat" where
  "nat_of_digits s = foldl (\<lambda>a c. 10 * a + digit_val c) 0 s"

fun str_nat :: "nat \<Rightarrow> string" where
  "str_nat n = (if n < 10 then [digit_char n] else str_nat (n div 10) @ [digit_char (n mod 10)])"

declare str_nat.simps [simp del]

definition py_str_int :: "int \<Rightarrow> error + string" where
  "py_str_int i =
     (if int_max_str_digits < length (str_nat (nat \<bar>i\<bar>)) then Inl ValueError
      else Inr (if i < 0 then CHR ''-'' # str_nat (nat (- i)) else str_nat (nat i)))"

text \<open>
  \<^verbatim>\<open>int(match)\<close> is only ever applied to a captured run of \<^verbatim>\<open>[0-9]*\<close> or to the
  default \<^verbatim>\<open>'0'\<close>; the empty run raises ValueError, and so does a run of more digit
  characters than the limit, leading zeros counted.
\<close>

definition py_int :: "string \<Rightarrow> error + int" where
  "py_int s =
     (if s \<noteq> [] \<and> list_all is_digit s \<and> length s \<le> int_max_str_digits
      then Inr (int (nat_of_digits s)) else Inl ValueError)"

subsection \<open>Python floats\<close>

text \<open>
  A Python float is an IEEE 754 binary64 number. A finite one is kept as the rational it
  denotes; arithmetic computes the exact rational result and rounds it to the nearest
  representable number, ties to even, overflowing to an infinity. The negative zero is left
  out: neither \<^verbatim>\<open>float\<close> of a digit string or of an int nor an addition of numbers
  other than negative zeros produces it.
\<close>

datatype pyfloat = Finite rat | PosInf | NegInf | NaN

definition pow2 :: "int \<Rightarrow> rat" where
  "pow2 k = (if 0 \<le> k then 2 ^ nat k else 1 / 2 ^ nat (- k))"

definition pow10 :: "int \<Rightarrow> rat" where
  "pow10 k = (if 0 \<le> k then 10 ^ nat k else 1 / 10 ^ nat (- k))"

definition ilog2 :: "rat \<Rightarrow> int" where
  \<comment> \<open>\<open>\<lfloor>log\<^sub>2 q\<rfloor>\<close> for \<open>0 < q\<close>, from the bit lengths of numerator and denominator\<close>
  "ilog2 q =
     (let (a, b) = quotient_of q;
          e = int (floorlog 2 (nat a)) - int (floorlog 2 (nat b))
      in if pow2 e \<le> q then e else e - 1)"

definition round_half_even :: "rat \<Rightarrow> int" where
  "round_half_even r =
     (let f = \<lfloor>r\<rfloor>; d = r - of_int f
      in if d < 1 / 2 then f else if 1 / 2 < d then f + 1 else if even f then f else f + 1)"

definition round_mag :: "rat \<Rightarrow> pyfloat" where
  \<comment> \<open>nearest binary64 of \<open>0 \<le> q\<close>: 53 significant bits, least exponent \<open>-1074\<close>\<close>
  "round_mag q =
     (if q = 0 then Finite 0
      else let p = max (ilog2 q - 52) (- 1074);
               r = of_int (round_half_even (q / pow2 p)) * pow2 p
           in if pow2 1024 \<le> r then PosInf else Finite r)"

definition fneg :: "pyfloat \<Rightarrow> pyfloat" where
  "fneg x = (case x of Finite r \<Rightarrow> Finite (- r) | PosInf \<Rightarrow> NegInf | NegInf \<Rightarrow> PosInf | NaN \<Rightarrow> NaN)"

definition round_double :: "rat \<Rightarrow> pyfloat" where
  "round_double q = (if q < 0 then fneg (round_mag (- q)) else round_mag q)"

fun fadd :: "pyfloat \<Rightarrow> pyfloat \<Rightarrow> pyfloat" where
  "fadd (Finite a) (Finite b) = round_double (a + b)"
| "fadd NaN _ = NaN"
| "fadd _ NaN = NaN"
| "fadd PosInf NegInf = NaN"
| "fadd NegInf PosInf = NaN"
| "fadd PosInf _ = PosInf"
| "fadd _ PosInf = PosInf"
| "fadd NegInf _ = NegInf"
| "fadd _ NegInf = NegInf"

text \<open>
  \<^verbatim>\<open>float(text)\<close> on what the sixth group of the pattern can hold, a run of \<^verbatim>\<open>[0-9.]*\<close>
  (or the default \<^verbatim>\<open>'0'\<close>): digits with at most one point and at least one digit, else
  ValueError. The conversion is correctly rounded.
\<close>

definition py_float :: "string \<Rightarrow> error + pyfloat" where
  "py_float s =
     (let ip = takeWhile is_digit s; r = dropWhile is_digit s
      in case r of
           [] \<Rightarrow> if ip = [] then Inl ValueError
                 else Inr (round_double (of_nat (nat_of_digits ip)))
         | c # fp \<Rightarrow>
             if c = CHR ''.'' \<and> list_all is_digit fp \<and> (ip \<noteq> [] \<or> fp \<noteq> [])
             then Inr (round_double (of_nat (nat_of_digits (ip @ fp)) / 10 ^ length fp))
             else Inl ValueError)"

text \<open>
  \<^verbatim>\<open>float(i)\<close> for an int, as the mixed addition \<^verbatim>\<open>int + float\<close> does it: correctly
  rounded, OverflowError when the int is too large.
\<close>

definition float_of_int :: "int \<Rightarrow> error + pyfloat" where
  "float_of_int i =
     (case round_double (of_int i) of Finite r \<Rightarrow> Inr (Finite r) | _ \<Rightarrow> Inl OverflowError)"

text \<open>
  \<^verbatim>\<open>repr\<close> of a float, which \<^verbatim>\<open>str\<close> and \<^verbatim>\<open>'{}'.format\<close> use: the shortest digit
  string that reads back as the same float, printed in positional notation when the
  decimal point position lies in \<open>-3..16\<close> and with an exponent otherwise. The digits are
  those of \<^verbatim>\<open>_Py_dg_dtoa\<close> in mode 0: digit by digit, it stops at the first length \<open>k\<close> at
  which the value cut to \<open>k\<close> digits (\<open>lo\<close>) or the next decimal of \<open>k\<close> digits above it
  (\<open>hi\<close>) reads back; when both do it takes the one nearer to the value and, halfway
  between the two, the one whose last digit is even.
\<close>

definition ilog10 :: "rat \<Rightarrow> int" where
  \<comment> \<open>\<open>\<lfloor>log\<^sub>1\<^sub>0 q\<rfloor>\<close> for \<open>0 < q\<close>; a positive binary64 is at least \<open>2\<^sup>-\<^sup>1\<^sup>0\<^sup>7\<^sup>4 > 10\<^sup>-\<^sup>3\<^sup>2\<^sup>4\<close>\<close>
  "ilog10 q =
     (if 1 \<le> q then int (length (str_nat (nat \<lfloor>q\<rfloor>))) - 1
      else case List.find (\<lambda>k. 1 \<le> q * 10 ^ k) [1..<400] of
             Some k \<Rightarrow> - int k
           | None \<Rightarrow> - 400)"

definition reads_back :: "rat \<Rightarrow> rat \<Rightarrow> bool" where
  "reads_back q c = (round_mag c = Finite q)"

definition nearest :: "rat \<Rightarrow> int \<Rightarrow> rat \<Rightarrow> rat \<Rightarrow> rat" where
  \<comment> \<open>of \<open>lo \<le> q < hi\<close>, where \<open>m\<close> is \<open>lo\<close> counted in units of its last digit\<close>
  "nearest q m lo hi =
     (if q - lo < hi - q then lo
      else if hi - q < q - lo then hi
      else if even m then lo else hi)"

definition digits_at :: "rat \<Rightarrow> nat \<Rightarrow> rat option" where
  \<comment> \<open>the decimal of at most \<open>k\<close> significant digits that is printed for \<open>q\<close>, if one reads back\<close>
  "digits_at q k =
     (let u = pow10 (ilog10 q - int k + 1); m = \<lfloor>q / u\<rfloor>; lo = of_int m * u; hi = lo + u
      in if reads_back q lo \<and> reads_back q hi then Some (nearest q m lo hi)
         else if reads_back q lo then Some lo
         else if reads_back q hi then Some hi
         else None)"

fun first_some :: "('a \<Rightarrow> 'b option) \<Rightarrow> 'a list \<Rightarrow> 'b option" where
  "first_some f [] = None"
| "first_some f (x # xs) = (case f x of Some y \<Rightarrow> Some y | None \<Rightarrow> first_some f xs)"

definition shortest_decimal :: "rat \<Rightarrow> rat" where
  "shortest_decimal q =
     (case first_some (digits_at q) [1..<18] of Some d \<Rightarrow> d | None \<Rightarrow> q)"

definition strip_zeros :: "string \<Rightarrow> string" where
  "strip_zeros s = rev (dropWhile (\<lambda>c. c = CHR ''0'') (rev s))"

definition decimal_digits :: "rat \<Rightarrow> string \<times> int" where
  \<comment> \<open>digit string and decimal point position of a positive decimal \<open>d\<close> of at most 17 digits\<close>
  "decimal_digits d =
     (let e = ilog10 d
      in (strip_zeros (str_nat (nat \<lfloor>d / pow10 (e - 16)\<rfloor>)), e + 1))"

definition pad2 :: "string \<Rightarrow> string" where
  "pad2 s = (if length s < 2 then CHR ''0'' # s else s)"

definition format_digits :: "string \<Rightarrow> int \<Rightarrow> string" where
  "format_digits ds decpt =
     (if - 4 < decpt \<and> decpt \<le> 16 then
        (if decpt \<le> 0 then ''0.'' @ replicate (nat (- decpt)) CHR ''0'' @ ds
         else if int (length ds) \<le> decpt
              then ds @ replicate (nat decpt - length ds) CHR ''0'' @ ''.0''
              else take (nat decpt) ds @ ''.'' @ drop (nat decpt) ds)
      else
        hd ds # (if tl ds = [] then [] else CHR ''.'' # tl ds) @ ''e''
          @ (if decpt - 1 < 0 then ''-'' else ''+'') @ pad2 (str_nat (nat \<bar>decpt - 1\<bar>)))"

definition repr_mag :: "rat \<Rightarrow> string" where
  "repr_mag q =
     (if q = 0 then ''0.0''
      else let (ds, decpt) = decimal_digits (shortest_decimal q) in format_digits ds decpt)"

definition float_repr :: "pyfloat \<Rightarrow> string" where
  "float_repr x =
     (case x of
        Finite q \<Rightarrow> if q < 0 then CHR ''-'' # repr_mag (- q) else repr_mag q
      | PosInf \<Rightarrow> ''inf''
      | NegInf \<Rightarrow> ''-inf''
      | NaN \<Rightarrow> ''nan'')"

text \<open>
  The seconds field holds whatever the constructor was given: the int \<^verbatim>\<open>0\<close> of the
  default argument, or the float that parse computes. \<^verbatim>\<open>+\<close> on two ints is exact, on
  any other pair it converts an int operand to float and adds floats.
\<close>

datatype pynum = PyInt int | PyFloat pyfloat

fun py_add :: "pynum \<Rightarrow> pynum \<Rightarrow> error + pynum" where
  "py_add (PyInt a) (PyInt b) = Inr (PyInt (a + b))"
| "py_add (PyInt a) (PyFloat y) =
     (case float_of_int a of Inl e \<Rightarrow> Inl e | Inr x \<Rightarrow> Inr (PyFloat (fadd x y)))"
| "py_add (PyFloat x) (PyInt b) =
     (case float_of_int b of Inl e \<Rightarrow> Inl e | Inr y \<Rightarrow> Inr (PyFloat (fadd x y)))"
| "py_add (PyFloat x) (PyFloat y) = Inr (PyFloat (fadd x y))"

fun py_str :: "pynum \<Rightarrow> error + string" where
  "py_str (PyInt i) = py_str_int i"
| "py_str (PyFloat x) = Inr (float_repr x)"

subsection \<open>The duration class \<^verbatim>\<open>ISO8601\<close>\<close>

definition bind_err :: "error + 'a \<Rightarrow> ('a \<Rightarrow> error + 'b) \<Rightarrow> error + 'b" where
  "bind_err m f = (case m of Inl e \<Rightarrow> Inl e | Inr x \<Rightarrow> f x)"

record ISO8601 =
  years :: int
  months :: int
  days :: int
  hours :: int
  minutes :: int
  seconds :: pynum

definition ISO8601_init :: ISO8601 where
  \<comment> \<open>\<^verbatim>\<open>ISO8601()\<close>: every argument at its default, the int \<^verbatim>\<open>0\<close>\<close>
  "ISO8601_init =
     \<lparr>years = 0, months = 0, days = 0, hours = 0, minutes = 0, seconds = PyInt 0\<rparr>"

text \<open>
  The pattern
  \<^verbatim>\<open>^P(?:([0-9]*)Y)?(?:([0-9]*)M)?(?:([0-9]*)D)?(?:T(?:([0-9]*)H)?(?:([0-9]*)M)?(?:([0-9.]*)S)?)?$\<close>
  under \<^verbatim>\<open>re.search\<close>. Every optional group is a greedy run of a character class followed
  by one letter outside the class, so the backtracking matcher has a single way to match
  it: the whole run, then the letter. Giving characters of the run back puts a class
  character where the letter must be, and skipping a group that matches leaves its letter
  in front of groups none of which can consume it. \<open>opt_group\<close> returns the captured run
  and the rest, or no capture and the text untouched. \<^verbatim>\<open>$\<close> matches at the end of the
  text and also just before a newline that ends the text.
\<close>

definition opt_group :: "(char \<Rightarrow> bool) \<Rightarrow> char \<Rightarrow> string \<Rightarrow> string option \<times> string" where
  "opt_group cls letter s =
     (case dropWhile cls s of
        [] \<Rightarrow> (None, s)
      | c # r \<Rightarrow> if c = letter then (Some (takeWhile cls s), r) else (None, s))"

definition is_sec_char :: "char \<Rightarrow> bool" where
  "is_sec_char c = (is_digit c \<or> c = CHR ''.'')"

definition at_end :: "string \<Rightarrow> bool" where
  "at_end s = (s = [] \<or> s = [CHR 0x0A])"

type_synonym groups =
  "string option \<times> string option \<times> string option \<times> string option \<times> string option \<times> string option"

definition time_groups :: "string \<Rightarrow> (string option \<times> string option \<times> string option) option" where
  \<comment> \<open>\<^verbatim>\<open>(?:T(?:([0-9]*)H)?(?:([0-9]*)M)?(?:([0-9.]*)S)?)\<close> followed by \<^verbatim>\<open>$\<close>\<close>
  "time_groups s =
     (case s of
        [] \<Rightarrow> None
      | c # t0 \<Rightarrow>
          if c \<noteq> CHR ''T'' then None
          else let (g4, t1) = opt_group is_digit CHR ''H'' t0;
                   (g5, t2) = opt_group is_digit CHR ''M'' t1;
                   (g6, t3) = opt_group is_sec_char CHR ''S'' t2
               in if at_end t3 then Some (g4, g5, g6) else None)"

definition re_search :: "string \<Rightarrow> groups option" where
  "re_search s =
     (case s of
        [] \<Rightarrow> None
      | c # s0 \<Rightarrow>
          if c \<noteq> CHR ''P'' then None
          else let (g1, s1) = opt_group is_digit CHR ''Y'' s0;
                   (g2, s2) = opt_group is_digit CHR ''M'' s1;
                   (g3, s3) = opt_group is_digit CHR ''D'' s2
               in case time_groups s3 of
                    Some (g4, g5, g6) \<Rightarrow> Some (g1, g2, g3, g4, g5, g6)
                  | None \<Rightarrow> if at_end s3 then Some (g1, g2, g3, None, None, None) else None)"

definition group_or_0 :: "string option \<Rightarrow> string" where
  \<comment> \<open>\<^verbatim>\<open>matches.groups('0')\<close>: a group that took no part in the match reads \<^verbatim>\<open>'0'\<close>\<close>
  "group_or_0 g = (case g of None \<Rightarrow> ''0'' | Some s \<Rightarrow> s)"

definition parse :: "string \<Rightarrow> error + ISO8601" where
  "parse duration =
     (case re_search duration of
        None \<Rightarrow> Inl AssertionError
      | Some (g1, g2, g3, g4, g5, g6) \<Rightarrow>
          bind_err (py_int (group_or_0 g1)) (\<lambda>y.
          bind_err (py_int (group_or_0 g2)) (\<lambda>mo.
          bind_err (py_int (group_or_0 g3)) (\<lambda>d.
          bind_err (py_int (group_or_0 g4)) (\<lambda>h.
          bind_err (py_int (group_or_0 g5)) (\<lambda>mi.
          bind_err (py_float (group_or_0 g6)) (\<lambda>sec.
            Inr \<lparr>years = y, months = mo, days = d, hours = h, minutes = mi,
                 seconds = PyFloat sec\<rparr>)))))))"

definition ISO8601_str :: "ISO8601 \<Rightarrow> error + string" where
  \<comment> \<open>\<^verbatim>\<open>"P{}Y{}M{}DT{}H{}M{}S".format(...)\<close>, the fields converted from left to right\<close>
  "ISO8601_str d =
     bind_err (py_str_int (years d)) (\<lambda>y.
     bind_err (py_str_int (months d)) (\<lambda>mo.
     bind_err (py_str_int (days d)) (\<lambda>dy.
     bind_err (py_str_int (hours d)) (\<lambda>h.
     bind_err (py_str_int (minutes d)) (\<lambda>mi.
     bind_err (py_str (seconds d)) (\<lambda>sec.
       Inr (''P'' @ y @ ''Y'' @ mo @ ''M'' @ dy @ ''DT'' @ h @ ''H'' @ mi @ ''M'' @ sec @ ''S'')))))))"

definition ISO8601_add :: "ISO8601 \<Rightarrow> ISO8601 \<Rightarrow> error + ISO8601" where
  \<comment> \<open>\<^verbatim>\<open>__add__\<close>, and \<^verbatim>\<open>__iadd__\<close> which returns \<^verbatim>\<open>self + other\<close>\<close>
  "ISO8601_add a b =
     bind_err (py_add (seconds a) (seconds b)) (\<lambda>s.
       Inr \<lparr>years = years a + years b, months = months a + months b,
            days = days a + days b, hours = hours a + hours b,
            minutes = minutes a + minutes b, seconds = s\<rparr>)"

subsection \<open>Paths (\<^verbatim>\<open>os.path\<close> on POSIX)\<close>

text \<open>
  \<^verbatim>\<open>os.path.join\<close>, \<^verbatim>\<open>normpath\<close>, \<^verbatim>\<open>abspath\<close> and \<^verbatim>\<open>relpath\<close> of \<^verbatim>\<open>posixpath\<close>. The
  current working directory that \<^verbatim>\<open>abspath\<close> reads from the process is the parameter
  \<open>cwd\<close>.
\<close>

definition starts_with :: "string \<Rightarrow> string \<Rightarrow> bool" where
  "starts_with p s = (take (length p) s = p)"

definition path_join :: "string \<Rightarrow> string \<Rightarrow> string" where
  "path_join a b =
     (if starts_with ''/'' b then b
      else if a = [] \<or> last a = CHR ''/'' then a @ b
      else a @ ''/'' @ b)"

definition split_sep :: "string \<Rightarrow> string list" where
  \<comment> \<open>\<^verbatim>\<open>path.split('/')\<close>\<close>
  "split_sep s = foldr (\<lambda>c ws. if c = CHR ''/'' then [] # ws else (c # hd ws) # tl ws) s [[]]"

fun sep_join :: "string list \<Rightarrow> string" where
  \<comment> \<open>\<^verbatim>\<open>'/'.join(comps)\<close>\<close>
  "sep_join [] = []"
| "sep_join [c] = c"
| "sep_join (c # cs) = c @ ''/'' @ sep_join cs"

definition norm_step :: "nat \<Rightarrow> string list \<Rightarrow> string \<Rightarrow> string list" where
  \<comment> \<open>the body of the loop of \<^verbatim>\<open>normpath\<close> over the components\<close>
  "norm_step initial_slashes new_comps c =
     (if c = [] \<or> c = ''.'' then new_comps
      else if c \<noteq> ''..'' \<or> (initial_slashes = 0 \<and> new_comps = [])
                \<or> (new_comps \<noteq> [] \<and> last new_comps = ''..'')
           then new_comps @ [c]
      else if new_comps \<noteq> [] then butlast new_comps
      else new_comps)"

definition normpath :: "string \<Rightarrow> string" where
  "normpath path =
     (if path = [] then ''.''
      else let initial_slashes =
                 (if starts_with ''/'' path
                  then (if starts_with ''//'' path \<and> \<not> starts_with ''///'' path then 2 else 1)
                  else 0);
               comps = foldl (norm_step initial_slashes) [] (split_sep path);
               p = replicate initial_slashes CHR ''/'' @ sep_join comps
           in if p = [] then ''.'' else p)"

definition abspath :: "string \<Rightarrow> string \<Rightarrow> string" where
  "abspath cwd path = normpath (if starts_with ''/'' path then path else path_join cwd path)"

fun common_prefix_len :: "'a list \<Rightarrow> 'a list \<Rightarrow> nat" where
  "common_prefix_len (x # xs) (y # ys) = (if x = y then Suc (common_prefix_len xs ys) else 0)"
| "common_prefix_len _ _ = 0"

definition relpath :: "string \<Rightarrow> string \<Rightarrow> string \<Rightarrow> error + string" where
  "relpath cwd path start =
     (if path = [] then Inl ValueError
      else let start_list = filter (\<lambda>x. x \<noteq> []) (split_sep (abspath cwd start));
               path_list = filter (\<lambda>x. x \<noteq> []) (split_sep (abspath cwd path));
               i = common_prefix_len start_list path_list;
               rel_list = replicate (length start_list - i) ''..'' @ drop i path_list
           in if rel_list = [] then Inr ''.''
              else Inr (foldl path_join (hd rel_list) (tl rel_list)))"

subsection \<open>Element trees\<close>

text \<open>
  An \<^verbatim>\<open>ElementTree.Element\<close>: the tag with its namespace in braces, the attribute
  dictionary in insertion order, the text and the children. The source reaches elements
  through \<^verbatim>\<open>find\<close> and \<^verbatim>\<open>findall\<close> with a path of tags of the DASH namespace and changes
  them in place; \<open>map_path\<close> applies one such change to every element that
  \<^verbatim>\<open>findall\<close> returns for the path, in document order, and stops at the first exception.
\<close>

datatype element =
  Element (tag: string) (attrib: "(string \<times> string) list") (etext: "string option")
    (children: "element list")

definition dash_namespace :: string where
  "dash_namespace = ''urn:mpeg:dash:schema:mpd:2011''"

definition qname :: "string \<Rightarrow> string" where
  "qname t = ''{'' @ dash_namespace @ ''}'' @ t"

fun findall :: "element \<Rightarrow> string list \<Rightarrow> element list" where
  "findall elem [] = []"
| "findall elem [t] = filter (\<lambda>c. tag c = qname t) (children elem)"
| "findall elem (t # ts) =
     concat (map (\<lambda>c. findall c ts) (filter (\<lambda>c. tag c = qname t) (children elem)))"

definition find :: "element \<Rightarrow> string list \<Rightarrow> error + element" where
  "find elem args = (case findall elem args of [] \<Rightarrow> Inl AssertionError | c # _ \<Rightarrow> Inr c)"

definition set_attr :: "element \<Rightarrow> string \<Rightarrow> string \<Rightarrow> element" where
  \<comment> \<open>\<^verbatim>\<open>elem.attrib[k] = v\<close>\<close>
  "set_attr e k v = Element (tag e) (AList.update k v (attrib e)) (etext e) (children e)"

definition get_attr :: "element \<Rightarrow> string \<Rightarrow> string option" where
  "get_attr e k = map_of (attrib e) k"

fun remove_first :: "('a \<Rightarrow> bool) \<Rightarrow> 'a list \<Rightarrow> 'a list" where
  "remove_first P [] = []"
| "remove_first P (x # xs) = (if P x then xs else x # remove_first P xs)"

fun map_err :: "('a \<Rightarrow> error + 'b) \<Rightarrow> 'a list \<Rightarrow> error + 'b list" where
  "map_err f [] = Inr []"
| "map_err f (x # xs) =
     (case f x of
        Inl e \<Rightarrow> Inl e
      | Inr y \<Rightarrow> (case map_err f xs of Inl e \<Rightarrow> Inl e | Inr ys \<Rightarrow> Inr (y # ys)))"

fun map_path :: "(element \<Rightarrow> error + element) \<Rightarrow> string list \<Rightarrow> element \<Rightarrow> error + element" where
  "map_path f [] e = f e"
| "map_path f (t # ts) e =
     (case map_err (\<lambda>c. if tag c = qname t then map_path f ts c else Inr c) (children e) of
        Inl err \<Rightarrow> Inl err
      | Inr cs \<Rightarrow> Inr (Element (tag e) (attrib e) (etext e) cs))"

subsection \<open>The merge \<^verbatim>\<open>_dash_concat\<close>\<close>

datatype manifest_format = DASH | HLS

datatype streaming_mode = VOD | LIVE

record pipeline_config =
  manifest_format :: "manifest_format list"
  streaming_mode :: streaming_mode
  dash_output :: string

datatype process_status = Finished | Running | Errored

text \<open>
  A packager node as the merge and the watcher see it: its output directory and what
  \<^verbatim>\<open>check_status()\<close> answers on this pass.
\<close>

record packager_node =
  output_dir :: string
  status :: process_status

text \<open>
  The file system maps a path to the element tree that \<^verbatim>\<open>ElementTree.ElementTree(file=...)\<close>
  parses from it; a path that cannot be opened or parsed has no entry and raises. Writing
  the merged manifest stores the merged tree under the output path.
\<close>

type_synonym filesystem = "string \<Rightarrow> element option"

definition load :: "filesystem \<Rightarrow> string \<Rightarrow> error + element" where
  "load fs path = (case fs path of None \<Rightarrow> Inl OSError | Some tree \<Rightarrow> Inr tree)"

definition rewrite :: "string \<Rightarrow> string \<Rightarrow> string \<Rightarrow> string \<Rightarrow> error + string" where
  \<comment> \<open>\<^verbatim>\<open>os.path.join(os.path.relpath(source_dir, dest_dir), reference)\<close>\<close>
  "rewrite cwd reference source_dir dest_dir =
     bind_err (relpath cwd source_dir dest_dir) (\<lambda>path_to_segment.
       Inr (path_join path_to_segment reference))"

definition rewrite_attr :: "string \<Rightarrow> string \<Rightarrow> element \<Rightarrow> element" where
  \<comment> \<open>\<^verbatim>\<open>if e.attrib.get(k): e.attrib[k] = os.path.join(path_to_segment, e.attrib[k])\<close>\<close>
  "rewrite_attr path_to_segment k e =
     (case get_attr e k of
        None \<Rightarrow> e
      | Some v \<Rightarrow> if v = [] then e else set_attr e k (path_join path_to_segment v))"

definition rewrite_segment_template ::
  "string \<Rightarrow> string \<Rightarrow> string \<Rightarrow> element \<Rightarrow> error + element" where
  \<comment> \<open>the body of the loop over the SegmentTemplate elements\<close>
  "rewrite_segment_template cwd node_dir dest_dir segment_template =
     bind_err (relpath cwd node_dir dest_dir) (\<lambda>path_to_segment.
       Inr (rewrite_attr path_to_segment ''media''
             (rewrite_attr path_to_segment ''initialization'' segment_template)))"

definition rewrite_base_url ::
  "string \<Rightarrow> string \<Rightarrow> string \<Rightarrow> element \<Rightarrow> error + element" where
  \<comment> \<open>the body of the loop over the BaseURL elements\<close>
  "rewrite_base_url cwd node_dir dest_dir base_url =
     bind_err (relpath cwd node_dir dest_dir) (\<lambda>path_to_segment.
       case etext base_url of
         None \<Rightarrow> Inl AssertionError
       | Some t \<Rightarrow>
           Inr (Element (tag base_url) (attrib base_url) (Some (path_join path_to_segment t))
                 (children base_url)))"

definition set_timing ::
  "pipeline_config \<Rightarrow> element \<Rightarrow> element \<Rightarrow> ISO8601 \<Rightarrow> error + element \<times> ISO8601" where
  \<comment> \<open>the branch on the streaming mode; \<open>total_time\<close> is threaded through\<close>
  "set_timing cfg mpd period total_time =
     (if streaming_mode cfg = VOD then
        (case get_attr mpd ''mediaPresentationDuration'' of
           None \<Rightarrow> Inl KeyError
         | Some d \<Rightarrow>
             bind_err (parse d) (\<lambda>dur.
             bind_err (ISO8601_add total_time dur) (\<lambda>new_total.
               Inr (set_attr period ''duration'' d, new_total))))
      else bind_err (ISO8601_str total_time) (\<lambda>start.
             Inr (set_attr period ''start'' start, total_time)))"

definition process_node ::
  "pipeline_config \<Rightarrow> string \<Rightarrow> string \<Rightarrow> filesystem \<Rightarrow> nat \<Rightarrow> packager_node \<Rightarrow> ISO8601
     \<Rightarrow> error + element \<times> ISO8601" where
  \<comment> \<open>one iteration of the loop over \<^verbatim>\<open>enumerate(self._packager_nodes)\<close>\<close>
  "process_node cfg cwd dest_dir fs i node total_time =
     bind_err (load fs (path_join (output_dir node) (dash_output cfg))) (\<lambda>mpd.
     bind_err (find mpd [''Period'']) (\<lambda>period.
     bind_err (py_str_int (int i)) (\<lambda>ident.
     bind_err (set_timing cfg mpd (set_attr period ''id'' ident) total_time)
       (\<lambda>(period, new_total).
     bind_err (map_path (rewrite_segment_template cwd (output_dir node) dest_dir)
                 [''AdaptationSet'', ''Representation'', ''SegmentTemplate''] period) (\<lambda>period.
     bind_err (map_path (rewrite_base_url cwd (output_dir node) dest_dir)
                 [''AdaptationSet'', ''Representation'', ''BaseURL''] period) (\<lambda>period.
       Inr (period, new_total)))))))"

fun collect_periods ::
  "pipeline_config \<Rightarrow> string \<Rightarrow> string \<Rightarrow> filesystem \<Rightarrow> nat \<Rightarrow> packager_node list \<Rightarrow> ISO8601
     \<Rightarrow> element list \<Rightarrow> error + element list \<times> ISO8601" where
  "collect_periods cfg cwd dest_dir fs i [] total_time periods = Inr (periods, total_time)"
| "collect_periods cfg cwd dest_dir fs i (node # nodes) total_time periods =
     (case process_node cfg cwd dest_dir fs i node total_time of
        Inl e \<Rightarrow> Inl e
      | Inr (period, new_total) \<Rightarrow>
          collect_periods cfg cwd dest_dir fs (Suc i) nodes new_total (periods @ [period]))"

definition is_period :: "element \<Rightarrow> bool" where
  "is_period c = (tag c = qname ''Period'')"

definition merged_document ::
  "pipeline_config \<Rightarrow> string \<Rightarrow> string \<Rightarrow> packager_node list \<Rightarrow> filesystem \<Rightarrow> error + element" where
  \<comment> \<open>\<^verbatim>\<open>ref_mpd\<close> as it is when the output file is opened\<close>
  "merged_document cfg cwd dest_dir nodes fs =
     (case nodes of
        [] \<Rightarrow> Inl IndexError
      | node0 # _ \<Rightarrow>
          bind_err (load fs (path_join (output_dir node0) (dash_output cfg))) (\<lambda>ref_mpd.
          bind_err (find ref_mpd [''Period'']) (\<lambda>_.
          bind_err (collect_periods cfg cwd dest_dir fs 0 nodes ISO8601_init [])
            (\<lambda>(periods, total_time).
              let ref1 = Element (tag ref_mpd) (attrib ref_mpd) (etext ref_mpd)
                           (remove_first is_period (children ref_mpd) @ periods)
              in if streaming_mode cfg = VOD
                 then bind_err (ISO8601_str total_time) (\<lambda>duration.
                        Inr (set_attr ref1 ''mediaPresentationDuration'' duration))
                 else Inr ref1))))"

definition dash_concat ::
  "pipeline_config \<Rightarrow> string \<Rightarrow> string \<Rightarrow> packager_node list \<Rightarrow> filesystem \<Rightarrow> error + filesystem" where
  "dash_concat cfg cwd dest_dir nodes fs =
     bind_err (merged_document cfg cwd dest_dir nodes fs) (\<lambda>ref_mpd.
       Inr (fs(path_join dest_dir (dash_output cfg) \<mapsto> ref_mpd)))"

subsection \<open>The watcher \<^verbatim>\<open>_thread_single_pass\<close>\<close>

text \<open>
  The state of the node: its own status, the file system, and the list of the merges that
  were called so far (a record of the calls, not a variable of the source). A pass returns
  the exception it raised, if any, and the state it leaves. \<^verbatim>\<open>_hls_concat\<close> imports a
  module and does nothing else.
\<close>

record node_state =
  node_status :: process_status
  files :: filesystem
  called :: "manifest_format list"

datatype scan = AllFinished | SawRunning | SawErrored nat

fun check_nodes :: "nat \<Rightarrow> packager_node list \<Rightarrow> scan" where
  \<comment> \<open>the loop over \<^verbatim>\<open>enumerate(self._packager_nodes)\<close>\<close>
  "check_nodes i [] = AllFinished"
| "check_nodes i (node # nodes) =
     (if status node = Running then SawRunning
      else if status node = Errored then SawErrored i
      else check_nodes (Suc i) nodes)"

definition hls_concat :: "node_state \<Rightarrow> error option \<times> node_state" where
  "hls_concat st = (None, st\<lparr>called := called st @ [HLS]\<rparr>)"

definition run_dash_concat ::
  "pipeline_config \<Rightarrow> string \<Rightarrow> string \<Rightarrow> packager_node list \<Rightarrow> node_state
     \<Rightarrow> error option \<times> node_state" where
  "run_dash_concat cfg cwd dest_dir nodes st =
     (case dash_concat cfg cwd dest_dir nodes (files st) of
        Inl e \<Rightarrow> (Some e, st\<lparr>called := called st @ [DASH]\<rparr>)
      | Inr fs \<Rightarrow> (None, st\<lparr>files := fs, called := called st @ [DASH]\<rparr>))"

definition thread_single_pass ::
  "pipeline_config \<Rightarrow> string \<Rightarrow> string \<Rightarrow> packager_node list \<Rightarrow> node_state
     \<Rightarrow> error option \<times> node_state" where
  "thread_single_pass cfg cwd dest_dir nodes st =
     (case check_nodes 0 nodes of
        SawRunning \<Rightarrow> (None, st)
      | SawErrored i \<Rightarrow> (Some (RuntimeError i), st)
      | AllFinished \<Rightarrow>
          (case (if DASH \<in> set (manifest_format cfg)
                 then run_dash_concat cfg cwd dest_dir nodes st else (None, st)) of
             (Some e, st1) \<Rightarrow> (Some e, st1)
           | (None, st1) \<Rightarrow>
               (case (if HLS \<in> set (manifest_format cfg) then hls_concat st1 else (None, st1)) of
                  (Some e, st2) \<Rightarrow> (Some e, st2)
                | (None, st2) \<Rightarrow> (None, st2\<lparr>node_status := Finished\<rparr>))))"

text \<open>
  Modelled from the spec: the thread loop of \<^verbatim>\<open>ThreadedNodeBase\<close> (streamer/node_base.py
  is not part of the sources at hand), which calls \<^verbatim>\<open>_thread_single_pass\<close> while the node
  is Running. The node is built with \<^verbatim>\<open>continue_on_exception=False\<close>: an exception of the
  pass ends the loop with the node Errored, which the spec calls the terminal Errored
  state carrying the cause.
\<close>

definition tick ::
  "pipeline_config \<Rightarrow> string \<Rightarrow> string \<Rightarrow> packager_node list \<Rightarrow> node_state
     \<Rightarrow> error option \<times> node_state" where
  "tick cfg cwd dest_dir nodes st =
     (if node_status st \<noteq> Running then (None, st)
      else case thread_single_pass cfg cwd dest_dir nodes st of
             (Some e, st') \<Rightarrow> (Some e, st'\<lparr>node_status := Errored\<rparr>)
           | (None, st') \<Rightarrow> (None, st'))"

subsection \<open>Notions of the specification\<close>

text \<open>
  \<open>format_parse s\<close> is \<^verbatim>\<open>format(parse(s))\<close>. \<open>canonical\<close> builds the text
  \<^verbatim>\<open>PxYxMxDTxHxMxS\<close> with every component present, the five integer components as
  decimal numerals and the seconds component as given.
\<close>

definition format_parse :: "string \<Rightarrow> error + string" where
  "format_parse s = bind_err (parse s) ISO8601_str"

definition canonical :: "nat \<Rightarrow> nat \<Rightarrow> nat \<Rightarrow> nat \<Rightarrow> nat \<Rightarrow> string \<Rightarrow> string" where
  "canonical y mo d h mi sec =
     ''P'' @ str_nat y @ ''Y'' @ str_nat mo @ ''M'' @ str_nat d @ ''DT''
       @ str_nat h @ ''H'' @ str_nat mi @ ''M'' @ sec @ ''S''"

text \<open>
  A numeral of at most as many digits as \<^verbatim>\<open>int\<close> and \<^verbatim>\<open>str\<close> convert, a duration whose five
  integer components are such numerals, and the durations that the specification calls
  obtained from parse or from adding parsed values: the results of parse, the sums of two
  such durations, and the sums of the default duration and such a duration, as the merge
  forms them for its running total.
\<close>

definition short_numeral :: "nat \<Rightarrow> bool" where
  "short_numeral n = (length (str_nat n) \<le> int_max_str_digits)"

definition printable :: "ISO8601 \<Rightarrow> bool" where
  "printable d =
     (short_numeral (nat \<bar>years d\<bar>) \<and> short_numeral (nat \<bar>months d\<bar>)
      \<and> short_numeral (nat \<bar>days d\<bar>) \<and> short_numeral (nat \<bar>hours d\<bar>)
      \<and> short_numeral (nat \<bar>minutes d\<bar>))"



text \<open>
  The grammar \<^verbatim>\<open>P[nY][nM][nD][T[nH][nM][n.nS]]\<close> of the specification, every component
  optional: a component is absent or a number followed by its letter. The grammar is
  stated for any notion of the number of the first five components and any notion of the
  seconds number. \<open>integer_text\<close> is the integer of the specification and \<open>spec_seconds\<close>
  its seconds \<^verbatim>\<open>n\<close> or \<^verbatim>\<open>n.n\<close>; \<open>int_text\<close> is what \<^verbatim>\<open>int\<close> accepts of a run of
  digits and \<open>float_text\<close> what \<^verbatim>\<open>float\<close> accepts of a run of digits and points;
  \<open>digit_run\<close> and \<open>sec_run\<close> are the runs \<^verbatim>\<open>[0-9]*\<close> and \<^verbatim>\<open>[0-9.]*\<close> that the
  pattern captures, the empty run among them.
\<close>

definition integer_text :: "string \<Rightarrow> bool" where
  "integer_text n = (n \<noteq> [] \<and> list_all is_digit n)"

definition int_text :: "string \<Rightarrow> bool" where
  "int_text n = (n \<noteq> [] \<and> list_all is_digit n \<and> length n \<le> int_max_str_digits)"

definition digit_run :: "string \<Rightarrow> bool" where
  "digit_run n = list_all is_digit n"

definition sec_run :: "string \<Rightarrow> bool" where
  "sec_run n = list_all is_sec_char n"

definition component :: "(string \<Rightarrow> bool) \<Rightarrow> char \<Rightarrow> string set" where
  "component number letter = {[]} \<union> {n @ [letter] | n. number n}"

definition time_texts :: "(string \<Rightarrow> bool) \<Rightarrow> (string \<Rightarrow> bool) \<Rightarrow> string set" where
  "time_texts integer_number seconds_number =
     {''T'' @ h @ mi @ s | h mi s.
        h \<in> component integer_number CHR ''H'' \<and> mi \<in> component integer_number CHR ''M''
        \<and> s \<in> component seconds_number CHR ''S''}"

definition duration_texts :: "(string \<Rightarrow> bool) \<Rightarrow> (string \<Rightarrow> bool) \<Rightarrow> string set" where
  "duration_texts integer_number seconds_number =
     {''P'' @ y @ mo @ d @ t | y mo d t.
        y \<in> component integer_number CHR ''Y'' \<and> mo \<in> component integer_number CHR ''M''
        \<and> d \<in> component integer_number CHR ''D''
        \<and> (t = [] \<or> t \<in> time_texts integer_number seconds_number)}"

text \<open>What the group of a component captures: nothing when the component is absent.\<close>

definition grp :: "string \<Rightarrow> string option" where
  "grp c = (if c = [] then None else Some (butlast c))"

definition spec_seconds :: "string \<Rightarrow> bool" where
  "spec_seconds x =
     (integer_text x \<or> (\<exists>ip fp. x = ip @ ''.'' @ fp \<and> integer_text ip \<and> integer_text fp))"

definition float_text :: "string \<Rightarrow> bool" where
  "float_text x =
     (integer_text x
      \<or> (\<exists>ip fp. x = ip @ ''.'' @ fp \<and> list_all is_digit ip \<and> list_all is_digit fp
                  \<and> (ip \<noteq> [] \<or> fp \<noteq> [])))"

text \<open>
  \<open>(a + b) + c\<close> and \<open>a + (b + c)\<close> on durations, an exception of either addition passed on,
  and the seconds that are a whole number \<open>n\<close>, held as an int or as a float.
\<close>

definition add3_left :: "ISO8601 \<Rightarrow> ISO8601 \<Rightarrow> ISO8601 \<Rightarrow> error + ISO8601" where
  "add3_left a b c = bind_err (ISO8601_add a b) (\<lambda>ab. ISO8601_add ab c)"

definition add3_right :: "ISO8601 \<Rightarrow> ISO8601 \<Rightarrow> ISO8601 \<Rightarrow> error + ISO8601" where
  "add3_right a b c = bind_err (ISO8601_add b c) (\<lambda>bc. ISO8601_add a bc)"

definition whole_number :: "pynum \<Rightarrow> nat \<Rightarrow> bool" where
  "whole_number s n = (s = PyInt (int n) \<or> s = PyFloat (Finite (of_nat n)))"

text \<open>
  A reference is absolute in the sense of the specification when it is a URI with a
  scheme: a letter, then letters, digits, \<^verbatim>\<open>+\<close>, \<^verbatim>\<open>-\<close> or \<^verbatim>\<open>.\<close>, then a colon.
\<close>

definition is_alpha :: "char \<Rightarrow> bool" where
  "is_alpha c = (c \<in> set ''abcdefghijklmnopqrstuvwxyzABCDEFGHIJKLMNOPQRSTUVWXYZ'')"

definition is_scheme_char :: "char \<Rightarrow> bool" where
  "is_scheme_char c = (is_alpha c \<or> is_digit c \<or> c \<in> set ''+-.'')"

definition has_scheme :: "string \<Rightarrow> bool" where
  "has_scheme reference =
     (case dropWhile is_scheme_char reference of
        [] \<Rightarrow> False
      | c # _ \<Rightarrow> c = CHR '':'' \<and> (case reference of [] \<Rightarrow> False | a # _ \<Rightarrow> is_alpha a))"

text \<open>
  The two paths of \<^verbatim>\<open>findall\<close> in the merge, and what the specification calls rewriting
  applied to an attribute of an element and to the text of an element: \<open>x\<close> is the element
  before the merge and \<open>x'\<close> the element in its place afterwards.
\<close>

definition segment_template_path :: "string list" where
  "segment_template_path = [''AdaptationSet'', ''Representation'', ''SegmentTemplate'']"

definition base_url_path :: "string list" where
  "base_url_path = [''AdaptationSet'', ''Representation'', ''BaseURL'']"

definition rewritten_attr :: "string \<Rightarrow> string \<Rightarrow> string \<Rightarrow> string \<Rightarrow> element \<Rightarrow> element \<Rightarrow> bool" where
  "rewritten_attr cwd source_dir dest_dir k x x' =
     (case get_attr x k of
        None \<Rightarrow> get_attr x' k = None
      | Some v \<Rightarrow>
          if v = [] then get_attr x' k = Some []
          else (\<exists>v'. rewrite cwd v source_dir dest_dir = Inr v' \<and> get_attr x' k = Some v'))"

definition rewritten_text :: "string \<Rightarrow> string \<Rightarrow> string \<Rightarrow> element \<Rightarrow> element \<Rightarrow> bool" where
  "rewritten_text cwd source_dir dest_dir b b' =
     (\<exists>t t'. etext b = Some t \<and> rewrite cwd t source_dir dest_dir = Inr t' \<and> etext b' = Some t')"

text \<open>
  The document of a job, the sum of a list of durations from a start value, and the jobs
  on which the merge does not raise: the document loads and has a Period child, in finite
  mode it carries a total duration that parses, every BaseURL on the path has text, and the
  job directory is not the empty path when a reference has to be rewritten.
\<close>

definition job_document :: "pipeline_config \<Rightarrow> filesystem \<Rightarrow> packager_node \<Rightarrow> error + element" where
  "job_document cfg fs node = load fs (path_join (output_dir node) (dash_output cfg))"

fun sum_durations :: "ISO8601 \<Rightarrow> ISO8601 list \<Rightarrow> error + ISO8601" where
  "sum_durations total_time [] = Inr total_time"
| "sum_durations total_time (d # ds) =
     bind_err (ISO8601_add total_time d) (\<lambda>t. sum_durations t ds)"

definition mergeable :: "pipeline_config \<Rightarrow> filesystem \<Rightarrow> packager_node \<Rightarrow> bool" where
  "mergeable cfg fs node =
     (\<exists>mpd period.
        job_document cfg fs node = Inr mpd \<and> find mpd [''Period''] = Inr period
        \<and> (streaming_mode cfg = VOD \<longrightarrow>
             (\<exists>d dv. get_attr mpd ''mediaPresentationDuration'' = Some d \<and> parse d = Inr dv))
        \<and> (output_dir node = [] \<longrightarrow>
             findall period segment_template_path = [] \<and> findall period base_url_path = [])
        \<and> (\<forall>b\<in>set (findall period base_url_path). etext b \<noteq> None))"

text \<open>A path component: not empty and without a separator.\<close>

definition plain :: "string \<Rightarrow> bool" where
  "plain w = (w \<noteq> [] \<and> CHR ''/'' \<notin> set w)"

text \<open>The components of the working directory as \<^verbatim>\<open>normpath\<close> leaves them.\<close>

definition cwd_comps :: "string \<Rightarrow> string list" where
  "cwd_comps cwd = foldl (norm_step (if starts_with ''/'' cwd then 1 else 0)) [] (split_sep cwd)"

section \<open>Properties\<close>

subsection \<open>Rounding to binary64\<close>

text \<open>
  The exponent that \<open>ilog2\<close> computes is the one with \<open>2\<^sup>e \<le> q < 2\<^sup>e\<^sup>+\<^sup>1\<close>, so a concrete
  rounding is evaluated from that exponent; whole numbers below \<open>2\<^sup>5\<^sup>3\<close> are exact.
\<close>

lemma pow2_powi: "pow2 k = 2 powi k"
  by (simp add: pow2_def power_int_def power_one_over)

lemma pow2_pos: "0 < pow2 k"
  by (simp add: pow2_powi zero_less_power_int)

lemma pow2_add: "pow2 (a + b) = pow2 a * pow2 b"
  by (simp add: pow2_powi power_int_add)

lemma pow2_mono: "a \<le> b \<Longrightarrow> pow2 a \<le> pow2 b"
  by (simp add: pow2_powi power_int_increasing)

lemma pow2_strict_mono: "a < b \<Longrightarrow> pow2 a < pow2 b"
  by (simp add: pow2_powi power_int_strict_increasing)

lemma pow2_nat: "pow2 (int n) = 2 ^ n"
  by (simp add: pow2_def)

lemma floorlog_rat_bounds:
  assumes "0 < a"
  shows "pow2 (int (floorlog 2 (nat a)) - 1) \<le> of_int a"
    and "of_int a < pow2 (int (floorlog 2 (nat a)))"
proof -
  define n where "n = nat a"
  define l where "l = floorlog 2 n"
  have n: "0 < n" using assms by (simp add: n_def)
  have an: "(of_int a :: rat) = of_nat n" using assms by (simp add: n_def)
  have bnd: "2 ^ (l - 1) \<le> n \<and> n < 2 ^ l"
    unfolding l_def by (rule floorlog_bounds [OF n]) simp
  have l1: "1 \<le> l"
  proof (rule ccontr)
    assume "\<not> 1 \<le> l"
    then have "l = 0" by simp
    with bnd n show False by simp
  qed
  have "(of_nat (2 ^ (l - 1)) :: rat) \<le> of_nat n"
    using bnd by (simp only: of_nat_le_iff)
  then have lo: "(2::rat) ^ (l - 1) \<le> of_nat n" by simp
  have "(of_nat n :: rat) < of_nat (2 ^ l)"
    using bnd by (simp only: of_nat_less_iff)
  then have hi: "(of_nat n :: rat) < 2 ^ l" by simp
  have e: "int l - 1 = int (l - 1)" using l1 by simp
  show "pow2 (int (floorlog 2 (nat a)) - 1) \<le> of_int a"
    using lo by (simp only: n_def [symmetric] l_def [symmetric] e pow2_nat an)
  show "of_int a < pow2 (int (floorlog 2 (nat a)))"
    using hi by (simp only: n_def [symmetric] l_def [symmetric] pow2_nat an)
qed

lemma ilog2_bracket:
  assumes "0 < q"
  shows "pow2 (ilog2 q) \<le> q" and "q < pow2 (ilog2 q + 1)"
proof -
  obtain a b where ab: "quotient_of q = (a, b)" by (cases "quotient_of q")
  have b: "0 < b" by (rule quotient_of_denom_pos [OF ab])
  have q: "q = of_int a / of_int b" by (rule quotient_of_div [OF ab])
  have a: "0 < a" using assms b unfolding q by (simp add: zero_less_divide_iff)
  define la where "la = int (floorlog 2 (nat a))"
  define lb where "lb = int (floorlog 2 (nat b))"
  note A = floorlog_rat_bounds [OF a, folded la_def]
  note B = floorlog_rat_bounds [OF b, folded lb_def]
  have rb: "(0::rat) < of_int b" using b by simp
  have ra: "(0::rat) < of_int a" using a by simp
  have up: "q < pow2 (la - lb + 1)"
  proof -
    have "of_int a / of_int b < pow2 la / pow2 (lb - 1)"
      by (rule frac_less) (use A B ra pow2_pos in \<open>simp_all add: less_imp_le\<close>)
    also have "pow2 la / pow2 (lb - 1) = pow2 (la - (lb - 1))"
      unfolding pow2_powi by (rule power_int_diff [symmetric]) simp
    also have "la - (lb - 1) = la - lb + 1" by simp
    finally show ?thesis unfolding q .
  qed
  have lo: "pow2 (la - lb - 1) < q"
  proof -
    have "pow2 (la - 1) / pow2 lb < of_int a / of_int b"
      by (rule frac_less2) (use A B rb pow2_pos in simp_all)
    moreover have "pow2 (la - 1) / pow2 lb = pow2 (la - 1 - lb)"
      unfolding pow2_powi by (rule power_int_diff [symmetric]) simp
    moreover have "la - 1 - lb = la - lb - 1" by simp
    ultimately show ?thesis unfolding q by simp
  qed
  have il: "ilog2 q = (if pow2 (la - lb) \<le> q then la - lb else la - lb - 1)"
    by (simp add: ilog2_def ab la_def lb_def Let_def)
  show "pow2 (ilog2 q) \<le> q" using lo by (simp add: il less_imp_le)
  show "q < pow2 (ilog2 q + 1)" using up by (auto simp: il not_le)
qed

lemma ilog2_unique:
  assumes "0 < q" and "pow2 e \<le> q" and "q < pow2 (e + 1)"
  shows "ilog2 q = e"
proof (rule ccontr)
  assume ne: "ilog2 q \<noteq> e"
  note br = ilog2_bracket [OF assms(1)]
  show False
  proof (cases "ilog2 q < e")
    case True
    then have "pow2 (ilog2 q + 1) \<le> pow2 e" by (intro pow2_mono) simp
    with br(2) assms(2) show False by simp
  next
    case False
    with ne have "e + 1 \<le> ilog2 q" by simp
    then have "pow2 (e + 1) \<le> pow2 (ilog2 q)" by (rule pow2_mono)
    with br(1) assms(3) show False by simp
  qed
qed

lemma round_mag_eval:
  assumes "0 < q" and "pow2 e \<le> q" and "q < pow2 (e + 1)"
  shows "round_mag q =
           (let p = max (e - 52) (- 1074);
                r = of_int (round_half_even (q / pow2 p)) * pow2 p
            in if pow2 1024 \<le> r then PosInf else Finite r)"
  using assms(1) by (simp add: round_mag_def ilog2_unique [OF assms])

lemma floor_rat_numeral: "\<lfloor>numeral a / numeral b :: rat\<rfloor> = numeral a div numeral b"
  by (metis floor_divide_of_int_eq of_int_numeral)



lemma round_half_even_of_int: "round_half_even (of_int z) = z"
  by (simp add: round_half_even_def)

lemma round_mag_nat:
  assumes "n < 2 ^ 53"
  shows "round_mag (of_nat n) = Finite (of_nat n)"
proof (cases "n = 0")
  case True
  then show ?thesis by (simp add: round_mag_def)
next
  case False
  define q :: rat where "q = of_nat n"
  define e where "e = ilog2 q"
  have q0: "0 < q" using False by (simp add: q_def)
  note br = ilog2_bracket [OF q0, folded e_def]
  have q1: "pow2 0 \<le> q" using False by (simp add: q_def pow2_def)
  have "(of_nat n :: rat) < of_nat (2 ^ 53)" using assms by (simp only: of_nat_less_iff)
  then have q53: "q < pow2 53" by (simp add: q_def pow2_def)
  have e0: "0 \<le> e"
  proof (rule ccontr)
    assume "\<not> 0 \<le> e"
    then have "pow2 (e + 1) \<le> pow2 0" by (intro pow2_mono) simp
    with br(2) q1 show False by simp
  qed
  have e52: "e \<le> 52"
  proof (rule ccontr)
    assume "\<not> e \<le> 52"
    then have "pow2 53 \<le> pow2 e" by (intro pow2_mono) simp
    with br(1) q53 show False by simp
  qed
  define k where "k = nat (52 - e)"
  have p: "max (e - 52) (- 1074) = - int k" using e0 e52 by (simp add: k_def)
  have pk: "pow2 (- int k) = 1 / 2 ^ k" by (simp add: pow2_def)
  have scaled: "q / pow2 (- int k) = of_int (int n * 2 ^ k)" by (simp add: pk q_def)
  have r: "of_int (round_half_even (q / pow2 (- int k))) * pow2 (- int k) = q"
    unfolding scaled round_half_even_of_int by (simp add: pk q_def)
  have "pow2 53 \<le> pow2 1024" by (intro pow2_mono) simp
  with q53 have small: "\<not> pow2 1024 \<le> q" by simp
  have "round_mag q = Finite q"
    using q0 small by (simp add: round_mag_def e_def [symmetric] p r Let_def)
  then show ?thesis by (simp add: q_def)
qed

lemma round_mag_nat_even:
  assumes "n < 2 ^ 54" and "even n"
  shows "round_mag (of_nat n) = Finite (of_nat n)"
proof (cases "n < 2 ^ 53")
  case True
  then show ?thesis by (rule round_mag_nat)
next
  case False
  define q :: rat where "q = of_nat n"
  from assms(2) obtain h where h: "n = 2 * h" by (elim evenE)
  have "(of_nat (2 ^ 53) :: rat) \<le> of_nat n" using False by (simp only: of_nat_le_iff not_less)
  then have lo: "pow2 53 \<le> q" by (simp add: q_def pow2_def)
  have "(of_nat n :: rat) < of_nat (2 ^ 54)" using assms(1) by (simp only: of_nat_less_iff)
  then have hi: "q < pow2 (53 + 1)" by (simp add: q_def pow2_def)
  have q0: "0 < q" using lo pow2_pos [of 53] by simp
  have p: "max (53 - 52) (- 1074) = (1::int)" by simp
  have scaled: "q / pow2 1 = of_int (int h)" by (simp add: q_def pow2_def h)
  have r: "of_int (round_half_even (q / pow2 1)) * pow2 1 = q"
    unfolding scaled round_half_even_of_int by (simp add: q_def pow2_def h)
  have "pow2 54 \<le> pow2 1024" by (intro pow2_mono) simp
  with hi have small: "\<not> pow2 1024 \<le> q" by simp
  have "round_mag q = Finite q"
    unfolding round_mag_eval [OF q0 lo hi] p Let_def r using small by simp
  then show ?thesis by (simp add: q_def)
qed





lemma round_double_nat: "n < 2 ^ 53 \<Longrightarrow> round_double (of_nat n) = Finite (of_nat n)"
  by (simp add: round_double_def round_mag_nat)

subsection \<open>Decimal text of whole numbers\<close>

lemma digit_cases:
  assumes "d < (10::nat)"
  shows "d = 0 \<or> d = 1 \<or> d = 2 \<or> d = 3 \<or> d = 4 \<or> d = 5 \<or> d = 6 \<or> d = 7 \<or> d = 8 \<or> d = 9"
  using assms by arith

lemma digit_char_props:
  assumes "d < 10"
  shows "is_digit (digit_char d)" and "digit_val (digit_char d) = d"
  using digit_cases [OF assms] by (auto simp: is_digit_def digit_char_def digit_val_def)

lemma nat_of_digits_snoc: "nat_of_digits (s @ [c]) = 10 * nat_of_digits s + digit_val c"
  by (simp add: nat_of_digits_def)

lemma str_nat_digits: "list_all is_digit (str_nat n)"
proof (induction n rule: str_nat.induct)
  case (1 n)
  show ?case
  proof (cases "n < 10")
    case True
    then show ?thesis by (simp add: str_nat.simps [of n] digit_char_props)
  next
    case False
    then show ?thesis using 1 by (simp add: str_nat.simps [of n] digit_char_props)
  qed
qed

lemma str_nat_nonempty: "str_nat n \<noteq> []"
  by (simp add: str_nat.simps [of n])

lemma nat_of_digits_str_nat: "nat_of_digits (str_nat n) = n"
proof (induction n rule: str_nat.induct)
  case (1 n)
  show ?case
  proof (cases "n < 10")
    case True
    then show ?thesis
      by (simp add: str_nat.simps [of n] nat_of_digits_def digit_char_props)
  next
    case False
    then show ?thesis
      using 1 by (simp add: str_nat.simps [of n] nat_of_digits_snoc digit_char_props)
  qed
qed

lemma py_int_str_nat:
  "length (str_nat n) \<le> int_max_str_digits \<Longrightarrow> py_int (str_nat n) = Inr (int n)"
  by (simp add: py_int_def str_nat_nonempty str_nat_digits nat_of_digits_str_nat)

lemma py_str_int_nat:
  "length (str_nat n) \<le> int_max_str_digits \<Longrightarrow> py_str_int (int n) = Inr (str_nat n)"
  by (simp add: py_str_int_def)


lemma str_nat_times_10:
  assumes "0 < m"
  shows "str_nat (m * 10) = str_nat m @ ''0''"
proof -
  have "\<not> m * 10 < 10" using assms by simp
  then show ?thesis by (simp add: str_nat.simps [of "m * 10"] digit_char_def)
qed

lemma str_nat_times_pow10:
  assumes "0 < m"
  shows "str_nat (m * 10 ^ j) = str_nat m @ replicate j CHR ''0''"
proof (induction j)
  case 0
  show ?case by simp
next
  case (Suc j)
  have "m * 10 ^ Suc j = (m * 10 ^ j) * 10" by simp
  then have "str_nat (m * 10 ^ Suc j) = str_nat ((m * 10 ^ j) * 10)" by (rule arg_cong)
  also have "\<dots> = str_nat (m * 10 ^ j) @ ''0''" using assms by (intro str_nat_times_10) simp
  also have "\<dots> = str_nat m @ replicate (Suc j) CHR ''0''"
    by (simp add: Suc.IH replicate_append_same)
  finally show ?case .
qed

lemma str_nat_length_bounds:
  assumes "0 < n"
  shows "10 ^ (length (str_nat n) - 1) \<le> n \<and> n < 10 ^ length (str_nat n)"
  using assms
proof (induction n rule: str_nat.induct)
  case (1 n)
  show ?case
  proof (cases "n < 10")
    case True
    then show ?thesis using "1.prems" by (simp add: str_nat.simps [of n])
  next
    case False
    then have pos: "0 < n div 10" by simp
    note ih = "1.IH" [OF False pos]
    define l where "l = length (str_nat (n div 10))"
    have l: "length (str_nat n) = Suc l"
      using False by (simp add: str_nat.simps [of n] l_def)
    have l1: "l \<noteq> 0" using str_nat_nonempty [of "n div 10"] by (simp add: l_def)
    from ih have lo: "10 ^ (l - 1) \<le> n div 10" and hi: "n div 10 < 10 ^ l"
      by (simp_all add: l_def)
    have p: "(10::nat) ^ l = 10 * 10 ^ (l - 1)" using l1 by (cases l) simp_all
    have "10 * 10 ^ (l - 1) \<le> 10 * (n div 10)" using lo by simp
    also have "\<dots> \<le> n" by simp
    finally have "10 ^ l \<le> n" unfolding p .
    moreover have "n < 10 * 10 ^ l" using hi by (simp add: div_less_iff_less_mult mult.commute)
    ultimately show ?thesis by (simp add: l)
  qed
qed

lemma dropWhile_replicate_same: "dropWhile (\<lambda>c. c = a) (replicate j a @ xs) = dropWhile (\<lambda>c. c = a) xs"
  by (induction j) simp_all

lemma strip_zeros_append_zeros: "strip_zeros (s @ replicate j CHR ''0'') = strip_zeros s"
  by (simp add: strip_zeros_def dropWhile_replicate_same)

lemma takeWhile_same: "takeWhile (\<lambda>c. c = a) xs = replicate (length (takeWhile (\<lambda>c. c = a) xs)) a"
  by (induction xs) simp_all

lemma strip_zeros_pad:
  "strip_zeros s @ replicate (length s - length (strip_zeros s)) CHR ''0'' = s"
proof -
  let ?P = "\<lambda>c. c = CHR ''0''"
  define z where "z = takeWhile ?P (rev s)"
  have z: "z = replicate (length z) CHR ''0''"
    unfolding z_def by (rule takeWhile_same)
  have "rev s = z @ dropWhile ?P (rev s)" by (simp add: z_def)
  then have "rev (rev s) = rev (z @ dropWhile ?P (rev s))" by (rule arg_cong)
  then have s: "s = strip_zeros s @ rev z" by (simp add: strip_zeros_def)
  have "length s = length (strip_zeros s) + length z"
    using arg_cong [OF s, of length] by simp
  then have len: "length s - length (strip_zeros s) = length z" by simp
  have "rev z = replicate (length z) CHR ''0''"
    using arg_cong [OF z, of rev] by simp
  then show ?thesis using s len by simp
qed

text \<open>
  A whole float below \<open>10\<^sup>1\<^sup>6\<close> prints as its decimal digits followed by \<^verbatim>\<open>.0\<close>. Such a
  float is below \<open>2\<^sup>5\<^sup>3\<close> or even. At a length \<open>k\<close> at which the float is not a decimal of
  \<open>k\<close> digits, the decimals of \<open>k\<close> digits next to it are even whole numbers below \<open>2\<^sup>5\<^sup>4\<close>,
  hence floats themselves, and do not read back as it; at the first length at which it is
  one, it is the decimal at distance zero.
\<close>

lemma first_some_const:
  assumes "\<And>j. j \<in> set ks \<Longrightarrow> f j = None \<or> f j = Some y" and "k \<in> set ks" and "f k = Some y"
  shows "first_some f (ks @ rest) = Some y"
  using assms
proof (induction ks)
  case Nil
  then show ?case by simp
next
  case (Cons a ks)
  show ?case
  proof (cases "f a")
    case (Some z)
    with Cons.prems(1) [of a] have "z = y" by simp
    with Some show ?thesis by simp
  next
    case None
    with Cons.prems(2,3) have "k \<in> set ks" by auto
    from Cons.IH [OF _ this Cons.prems(3)] Cons.prems(1) None show ?thesis by simp
  qed
qed

lemma length_str_nat_le:
  assumes "n < 10 ^ j" and "0 < j"
  shows "length (str_nat n) \<le> j"
proof (cases "n = 0")
  case True
  then show ?thesis using assms(2) by (simp add: str_nat.simps [of 0])
next
  case False
  then have "10 ^ (length (str_nat n) - 1) \<le> n" using str_nat_length_bounds [of n] by simp
  then have "(10::nat) ^ (length (str_nat n) - 1) < 10 ^ j"
    using assms(1) by (rule le_less_trans)
  then have "length (str_nat n) - 1 < j" by simp
  then show ?thesis by simp
qed

lemma digits_at_whole:
  fixes n k :: nat
  assumes n: "0 < n" "n < 10 ^ 16" "n < 2 ^ 53 \<or> even n"
    and k: "1 \<le> k" "k \<le> length (str_nat n)"
  defines "u \<equiv> 10 ^ (length (str_nat n) - k)"
  shows "digits_at (of_nat n) k = (if u dvd n then Some (of_nat n) else None)"
proof -
  define L where "L = length (str_nat n)"
  have b: "10 ^ (L - 1) \<le> n" "n < 10 ^ L"
    using str_nat_length_bounds [OF n(1)] by (simp_all add: L_def)
  have L16: "L \<le> 16" using length_str_nat_le [OF n(2)] by (simp add: L_def)
  have u: "u = 10 ^ (L - k)" by (simp add: u_def L_def)
  have u0: "0 < u" by (simp add: u)
  define lo where "lo = (n div u) * u"
  have il: "ilog10 (of_nat n) = int L - 1"
    using n(1) by (simp add: ilog10_def L_def)
  have e: "int L - 1 - int k + 1 = int (L - k)" using k by (simp add: L_def)
  have pw: "pow10 (ilog10 (of_nat n) - int k + 1) = of_nat u"
    unfolding il e by (simp add: pow10_def u)
  have fl: "\<lfloor>(of_nat n :: rat) / of_nat u\<rfloor> = int (n div u)"
    by (simp add: floor_divide_of_nat_eq)
  have lo_rat: "(of_int (int (n div u)) :: rat) * of_nat u = of_nat lo"
    by (simp add: lo_def)
  have hi_rat: "(of_nat lo :: rat) + of_nat u = of_nat (lo + u)" by simp
  have da: "digits_at (of_nat n) k =
      (if reads_back (of_nat n) (of_nat lo) \<and> reads_back (of_nat n) (of_nat (lo + u))
       then Some (nearest (of_nat n) (int (n div u)) (of_nat lo) (of_nat (lo + u)))
       else if reads_back (of_nat n) (of_nat lo) then Some (of_nat lo)
       else if reads_back (of_nat n) (of_nat (lo + u)) then Some (of_nat (lo + u))
       else None)"
    unfolding digits_at_def pw Let_def fl lo_rat hi_rat ..
  have lo_le: "lo \<le> n" by (simp add: lo_def)
  have n_lt: "n < lo + u"
    using u0 unfolding lo_def by (metis dividend_less_div_times add.commute)
  have dv: "u dvd n \<longleftrightarrow> lo = n"
    unfolding lo_def by (metis dvd_div_mult_self dvd_triv_right)
  have exact_n: "round_mag (of_nat n) = Finite (of_nat n)"
  proof -
    have "n < 2 ^ 54" using n(2) by simp
    with n(3) show ?thesis using round_mag_nat round_mag_nat_even by blast
  qed
  show ?thesis
  proof (cases "u dvd n")
    case True
    then have lo: "lo = n" using dv by simp
    have rb: "reads_back (of_nat n) (of_nat lo)"
      unfolding lo reads_back_def by (rule exact_n)
    have "(of_nat n :: rat) < of_nat (lo + u)" using n_lt by (simp only: of_nat_less_iff)
    then have near: "nearest (of_nat n) (int (n div u)) (of_nat lo) (of_nat (lo + u))
                 = (of_nat n :: rat)"
      unfolding lo nearest_def by simp
    show ?thesis unfolding da using rb near True by (simp add: lo del: of_nat_add)
  next
    case False
    then have ne: "lo \<noteq> n" using dv by simp
    have "u \<noteq> 1" using False by auto
    then have "L - k \<noteq> 0" unfolding u by (intro notI) simp
    then obtain j where j: "L - k = Suc j" by (cases "L - k") auto
    have ev: "even u" unfolding u j by simp
    then have ev_lo: "even lo" and ev_hi: "even (lo + u)" by (simp_all add: lo_def)
    have "10 ^ L = 10 ^ k * u"
      using k unfolding u L_def [symmetric] by (simp add: power_add [symmetric])
    with b(2) have "n div u < 10 ^ k"
      using u0 by (simp add: less_mult_imp_div_less)
    then have "(n div u + 1) * u \<le> 10 ^ k * u" by (intro mult_le_mono1) simp
    then have hi_le: "lo + u \<le> 10 ^ L"
      unfolding lo_def \<open>10 ^ L = 10 ^ k * u\<close> by simp
    have "(10::nat) ^ L \<le> 10 ^ 16" using L16 by (intro power_increasing) simp_all
    also have "\<dots> < 2 ^ 54" by simp
    finally have small: "lo + u < 2 ^ 54" "lo < 2 ^ 54" using hi_le by simp_all
    have "Finite (of_nat lo :: rat) \<noteq> Finite (of_nat n)"
      using ne by (simp only: pyfloat.inject of_nat_eq_iff not_False_eq_True)
    then have rb_lo: "\<not> reads_back (of_nat n) (of_nat lo)"
      unfolding reads_back_def round_mag_nat_even [OF small(2) ev_lo] .
    have "lo + u \<noteq> n" using n_lt by simp
    then have "Finite (of_nat (lo + u) :: rat) \<noteq> Finite (of_nat n)"
      by (simp only: pyfloat.inject of_nat_eq_iff not_False_eq_True)
    then have rb_hi: "\<not> reads_back (of_nat n) (of_nat (lo + u))"
      unfolding reads_back_def round_mag_nat_even [OF small(1) ev_hi] .
    show ?thesis unfolding da using rb_lo rb_hi False by simp
  qed
qed

lemma shortest_decimal_whole:
  fixes n :: nat
  assumes n: "0 < n" "n < 10 ^ 16" "n < 2 ^ 53 \<or> even n"
  shows "shortest_decimal (of_nat n) = of_nat n"
proof -
  define L where "L = length (str_nat n)"
  have L1: "1 \<le> L" using str_nat_nonempty [of n] by (cases "str_nat n") (simp_all add: L_def)
  have L16: "L \<le> 16" using length_str_nat_le [OF n(2)] by (simp add: L_def)
  have "18 = Suc L + (17 - L)" using L16 by simp
  moreover have "[1..<Suc L + (17 - L)] = [1..<Suc L] @ [Suc L..<Suc L + (17 - L)]"
    using L1 by (intro upt_add_eq_append) simp
  ultimately have split: "[1..<18] = [1..<Suc L] @ [Suc L..<18]" by simp
  have all: "digits_at (of_nat n) j = None \<or> digits_at (of_nat n) j = Some (of_nat n :: rat)"
    if "j \<in> set [1..<Suc L]" for j
  proof -
    from that have "1 \<le> j" "j \<le> length (str_nat n)" by (auto simp: L_def)
    from digits_at_whole [OF n this] show ?thesis by simp
  qed
  have atL: "digits_at (of_nat n) L = Some (of_nat n :: rat)"
    using digits_at_whole [OF n L1, of ] L1 by (simp add: L_def)
  have "L \<in> set [1..<Suc L]" using L1 by simp
  from first_some_const [of "[1..<Suc L]" "digits_at (of_nat n)" "of_nat n" L, OF all this atL]
  have "first_some (digits_at (of_nat n)) [1..<18] = Some (of_nat n :: rat)"
    unfolding split by simp
  then show ?thesis by (simp add: shortest_decimal_def)
qed

lemma repr_mag_whole:
  fixes n :: nat
  assumes n: "0 < n" "n < 10 ^ 16" "n < 2 ^ 53 \<or> even n"
  shows "repr_mag (of_nat n) = str_nat n @ ''.0''"
proof -
  define L where "L = length (str_nat n)"
  have L1: "1 \<le> L" using str_nat_nonempty [of n] by (cases "str_nat n") (simp_all add: L_def)
  have L16: "L \<le> 16" using length_str_nat_le [OF n(2)] by (simp add: L_def)
  have il: "ilog10 (of_nat n) = int L - 1"
    using n(1) by (simp add: ilog10_def L_def)
  define j where "j = 17 - L"
  have e: "int L - 1 - 16 = - int j" using L16 by (simp add: j_def)
  have "pow10 (- int j) = 1 / 10 ^ j" by (cases "j = 0") (simp_all add: pow10_def)
  then have "(of_nat n :: rat) / pow10 (int L - 1 - 16) = of_nat (n * 10 ^ j)"
    unfolding e by simp
  then have fl: "nat \<lfloor>(of_nat n :: rat) / pow10 (int L - 1 - 16)\<rfloor> = n * 10 ^ j"
    by (simp only: floor_of_nat nat_int)
  have dd: "decimal_digits (of_nat n) = (strip_zeros (str_nat n), int L)"
    unfolding decimal_digits_def il Let_def fl
    by (simp add: str_nat_times_pow10 [OF n(1)] strip_zeros_append_zeros)
  have len: "length (strip_zeros (str_nat n)) \<le> L"
    using arg_cong [OF strip_zeros_pad [of "str_nat n"], of length] by (simp add: L_def)
  have fmt: "format_digits (strip_zeros (str_nat n)) (int L)
               = strip_zeros (str_nat n)
                   @ replicate (L - length (strip_zeros (str_nat n))) CHR ''0'' @ ''.0''"
    using L1 L16 len by (simp add: format_digits_def)
  have "repr_mag (of_nat n) = format_digits (strip_zeros (str_nat n)) (int L)"
    using n(1) by (simp add: repr_mag_def shortest_decimal_whole [OF n] dd)
  also have "\<dots> = str_nat n @ ''.0''"
    unfolding fmt using strip_zeros_pad [of "str_nat n"] by (simp add: L_def)
  finally show ?thesis .
qed

lemma float_repr_whole:
  fixes n :: nat
  assumes "n < 10 ^ 16" and "n < 2 ^ 53 \<or> even n"
  shows "float_repr (Finite (of_nat n)) = str_nat n @ ''.0''"
proof (cases "n = 0")
  case True
  then show ?thesis by (simp add: float_repr_def repr_mag_def str_nat.simps digit_char_def)
next
  case False
  then show ?thesis using assms by (simp add: float_repr_def repr_mag_whole)
qed


subsection \<open>The groups of the pattern\<close>

lemma opt_group_present:
  assumes "list_all cls n" and "\<not> cls letter"
  shows "opt_group cls letter (n @ letter # r) = (Some n, r)"
proof -
  have "takeWhile cls (n @ letter # r) = n" and "dropWhile cls (n @ letter # r) = letter # r"
    using assms by (simp_all add: list_all_iff)
  then show ?thesis by (simp add: opt_group_def)
qed

lemma opt_group_Some:
  assumes "opt_group cls letter s = (Some n, r)"
  shows "s = n @ letter # r" and "list_all cls n"
proof -
  from assms obtain c r' where d: "dropWhile cls s = c # r'"
    by (cases "dropWhile cls s") (auto simp: opt_group_def)
  with assms have c: "c = letter" and n: "n = takeWhile cls s" and r: "r = r'"
    by (auto simp: opt_group_def split: if_splits)
  have "s = takeWhile cls s @ dropWhile cls s" by simp
  then show "s = n @ letter # r" unfolding d c n r .
  show "list_all cls n" unfolding n by (simp add: list_all_iff) (meson set_takeWhileD)
qed

lemma opt_group_None: "opt_group cls letter s = (None, r) \<Longrightarrow> r = s"
  by (auto simp: opt_group_def split: list.splits if_splits)

lemma opt_group_absent:
  assumes "dropWhile cls s = [] \<or> hd (dropWhile cls s) \<noteq> letter"
  shows "opt_group cls letter s = (None, s)"
proof (cases "dropWhile cls s")
  case Nil
  show ?thesis unfolding opt_group_def Nil by simp
next
  case (Cons c r)
  with assms have "c \<noteq> letter" by simp
  then show ?thesis unfolding opt_group_def Cons by simp
qed

subsection \<open>Parsing and printing durations\<close>

lemma letters_not_digits:
  "\<not> is_digit CHR ''Y''" "\<not> is_digit CHR ''M''" "\<not> is_digit CHR ''D''" "\<not> is_digit CHR ''H''"
  "\<not> is_digit CHR ''T''" "\<not> is_digit CHR ''S''" "\<not> is_digit CHR ''.''" "\<not> is_digit CHR ''P''"
  "\<not> is_sec_char CHR ''S''"
  by (simp_all add: is_digit_def is_sec_char_def)

lemma re_search_canonical:
  assumes "list_all is_sec_char sec"
  shows "re_search (canonical y mo d h mi sec)
           = Some (Some (str_nat y), Some (str_nat mo), Some (str_nat d),
                   Some (str_nat h), Some (str_nat mi), Some sec)"
  by (simp add: canonical_def re_search_def time_groups_def opt_group_present str_nat_digits
        letters_not_digits at_end_def assms)

lemma py_float_sec_chars:
  assumes "py_float s = Inr f"
  shows "list_all is_sec_char s"
proof -
  have s: "s = takeWhile is_digit s @ dropWhile is_digit s" by simp
  have t: "list_all is_sec_char (takeWhile is_digit s)"
    by (simp add: list_all_iff is_sec_char_def) (meson set_takeWhileD)
  have "list_all is_sec_char (dropWhile is_digit s)"
  proof (cases "dropWhile is_digit s")
    case Nil
    show ?thesis unfolding Nil by simp
  next
    case (Cons c fp)
    with assms have "c = CHR ''.''" and "list_all is_digit fp"
      by (auto simp: py_float_def Let_def split: if_splits)
    then show ?thesis unfolding Cons by (simp add: list_all_iff is_sec_char_def)
  qed
  with t have "list_all is_sec_char (takeWhile is_digit s @ dropWhile is_digit s)"
    by (simp only: list_all_append)
  then show ?thesis by simp
qed

lemma parse_canonical:
  assumes "py_float sec = Inr f"
    and "short_numeral y" "short_numeral mo" "short_numeral d" "short_numeral h"
      "short_numeral mi"
  shows "parse (canonical y mo d h mi sec)
           = Inr \<lparr>years = int y, months = int mo, days = int d, hours = int h,
                  minutes = int mi, seconds = PyFloat f\<rparr>"
  using assms(2-)
  by (simp add: parse_def re_search_canonical [OF py_float_sec_chars [OF assms(1)]] group_or_0_def
        bind_err_def py_int_str_nat assms(1) short_numeral_def)

lemma py_str_int_nonneg:
  assumes "0 \<le> i"
  shows "py_str_int i
           = (if short_numeral (nat \<bar>i\<bar>) then Inr (str_nat (nat i)) else Inl ValueError)"
  using assms by (simp add: py_str_int_def short_numeral_def)

lemma ISO8601_str_nonneg:
  assumes "0 \<le> years d" "0 \<le> months d" "0 \<le> days d" "0 \<le> hours d" "0 \<le> minutes d"
    and "seconds d = PyFloat f"
  shows "ISO8601_str d =
           (if printable d
            then Inr (canonical (nat (years d)) (nat (months d)) (nat (days d)) (nat (hours d))
                       (nat (minutes d)) (float_repr f))
            else Inl ValueError)"
  by (simp add: ISO8601_str_def py_str_int_nonneg assms bind_err_def printable_def canonical_def)

lemma str_canonical:
  assumes "short_numeral y" "short_numeral mo" "short_numeral d" "short_numeral h"
    "short_numeral mi"
  shows "ISO8601_str \<lparr>years = int y, months = int mo, days = int d, hours = int h,
                 minutes = int mi, seconds = PyFloat f\<rparr>
     = Inr (canonical y mo d h mi (float_repr f))"
  using assms
  by (simp add: ISO8601_str_nonneg [where f = f] printable_def)

lemma py_float_str_nat: "py_float (str_nat n) = Inr (round_double (of_nat n))"
proof -
  have t: "takeWhile is_digit (str_nat n) = str_nat n"
    and d: "dropWhile is_digit (str_nat n) = []"
    using str_nat_digits [of n] by (simp_all add: list_all_iff)
  show ?thesis
    unfolding py_float_def t d
    by (simp add: str_nat_nonempty nat_of_digits_str_nat)
qed

lemma py_float_whole:
  assumes "n < 2 ^ 53"
  shows "py_float (str_nat n) = Inr (Finite (of_nat n))"
  by (simp add: py_float_str_nat round_double_nat [OF assms])

lemma py_float_whole_point:
  assumes "n < 2 ^ 53"
  shows "py_float (str_nat n @ ''.0'') = Inr (Finite (of_nat n))"
proof -
  have t: "takeWhile is_digit (str_nat n @ ''.0'') = str_nat n"
    and d: "dropWhile is_digit (str_nat n @ ''.0'') = ''.0''"
    using str_nat_digits [of n] by (simp_all add: list_all_iff letters_not_digits)
  have v: "nat_of_digits (str_nat n @ ''0'') = 10 * n"
    by (simp add: nat_of_digits_snoc nat_of_digits_str_nat digit_val_def)
  show ?thesis
    unfolding py_float_def t d
    by (simp add: v is_digit_def round_double_nat [OF assms])
qed

lemmas parse_simps =
  parse_def re_search_def time_groups_def opt_group_def is_digit_def is_sec_char_def at_end_def
  group_or_0_def bind_err_def py_int_def nat_of_digits_def digit_val_def py_float_def
  round_double_def int_max_str_digits_def

lemmas str_simps =
  ISO8601_str_def py_str_int_def bind_err_def int_max_str_digits_def str_nat.simps digit_char_def

lemma round_mag_10: "round_mag 10 = Finite 10"
  using round_mag_nat [of 10] by simp

lemma round_mag_0: "round_mag 0 = Finite 0"
  by (simp add: round_mag_def)

lemma float_repr_10: "float_repr (Finite 10) = ''10.0''"
  using float_repr_whole [of 10] by (simp add: str_nat.simps digit_char_def)

lemma float_repr_0: "float_repr (Finite 0) = ''0.0''"
  using float_repr_whole [of 0] by (simp add: str_nat.simps digit_char_def)


lemma str_ten_seconds:
  "ISO8601_str \<lparr>years = 0, months = 0, days = 0, hours = 0, minutes = 0,
                 seconds = PyFloat (Finite 10)\<rparr> = Inr ''P0Y0M0DT0H0M10.0S''"
  by (simp add: str_simps float_repr_10)

lemma parse_seconds_float:
  assumes "parse s = Inr d"
  shows "\<exists>f. seconds d = PyFloat f"
  using assms
  by (auto simp: parse_def bind_err_def split: option.splits sum.splits prod.splits)




lemma below_2_53: "n < 10 ^ 15 \<Longrightarrow> n < (2::nat) ^ 53"
  by simp

lemma below_10_16: "n < 10 ^ 15 \<Longrightarrow> n < (10::nat) ^ 16"
  by simp

text \<open>
  C4 (as the code has it). For every text of the form \<^verbatim>\<open>PxYxMxDTxHxMxS\<close> with all six
  components present, whose five integer components are decimal numerals as Python prints
  ints (no leading zeros) of at most 4300 digits and whose seconds component is the text
  that Python prints for the float it denotes, \<^verbatim>\<open>format(parse(s)) == s\<close>. For a whole
  number of seconds below \<open>10\<^sup>1\<^sup>5\<close> that text is the decimal numeral followed by \<^verbatim>\<open>.0\<close>.
\<close>

theorem canonical_round_trip:
  "(short_numeral y \<and> short_numeral mo \<and> short_numeral d \<and> short_numeral h
      \<and> short_numeral mi \<and> py_float sec = Inr f \<and> float_repr f = sec \<longrightarrow>
      format_parse (canonical y mo d h mi sec) = Inr (canonical y mo d h mi sec))
   \<and> (short_numeral y \<and> short_numeral mo \<and> short_numeral d \<and> short_numeral h
      \<and> short_numeral mi \<and> n < 10 ^ 15 \<longrightarrow>
      format_parse (canonical y mo d h mi (str_nat n @ ''.0''))
        = Inr (canonical y mo d h mi (str_nat n @ ''.0'')))"
proof (intro conjI impI)
  assume a: "short_numeral y \<and> short_numeral mo \<and> short_numeral d \<and> short_numeral h
      \<and> short_numeral mi \<and> py_float sec = Inr f \<and> float_repr f = sec"
  then have p: "py_float sec = Inr f" and r: "float_repr f = sec"
    and s: "short_numeral y" "short_numeral mo" "short_numeral d" "short_numeral h"
      "short_numeral mi"
    by simp_all
  show "format_parse (canonical y mo d h mi sec) = Inr (canonical y mo d h mi sec)"
    unfolding format_parse_def parse_canonical [OF p s]
    by (simp add: bind_err_def str_canonical [OF s] r)
next
  assume a: "short_numeral y \<and> short_numeral mo \<and> short_numeral d \<and> short_numeral h
      \<and> short_numeral mi \<and> n < 10 ^ 15"
  then have n: "n < 10 ^ 15"
    and s: "short_numeral y" "short_numeral mo" "short_numeral d" "short_numeral h"
      "short_numeral mi"
    by simp_all
  have n53: "n < 2 ^ 53" by (rule below_2_53 [OF n])
  have p: "py_float (str_nat n @ ''.0'') = Inr (Finite (of_nat n))"
    by (rule py_float_whole_point [OF n53])
  have r: "float_repr (Finite (of_nat n)) = str_nat n @ ''.0''"
    using float_repr_whole [OF below_10_16 [OF n]] n53 by simp
  show "format_parse (canonical y mo d h mi (str_nat n @ ''.0''))
          = Inr (canonical y mo d h mi (str_nat n @ ''.0''))"
    unfolding format_parse_def parse_canonical [OF p s]
    by (simp add: bind_err_def str_canonical [OF s] r)
qed

lemma short_numeral_small: "n < 10 \<Longrightarrow> short_numeral n"
  by (simp add: short_numeral_def str_nat.simps [of n] int_max_str_digits_def)

theorem canonical_round_trip_witness:
  "short_numeral 7 \<and> short_numeral 2 \<and> short_numeral 3 \<and> short_numeral 4 \<and> short_numeral 5
   \<and> py_float ''10.0'' = Inr (Finite 10) \<and> float_repr (Finite 10) = ''10.0''
   \<and> format_parse ''P7Y2M3DT4H5M10.0S'' = Inr ''P7Y2M3DT4H5M10.0S''
   \<and> (30::nat) < 10 ^ 15
   \<and> format_parse ''P7Y2M3DT4H5M30.0S'' = Inr ''P7Y2M3DT4H5M30.0S''"
proof -
  have a: "py_float ''10.0'' = Inr (Finite 10)"
    by (simp add: parse_simps round_mag_10)
  have c: "canonical 7 2 3 4 5 ''10.0'' = ''P7Y2M3DT4H5M10.0S''"
    "canonical 7 2 3 4 5 (str_nat 30 @ ''.0'') = ''P7Y2M3DT4H5M30.0S''"
    by (simp_all add: canonical_def str_nat.simps digit_char_def)
  show ?thesis
    using canonical_round_trip [of 7 2 3 4 5 "''10.0''" "Finite 10" 30] a float_repr_10
    by (simp add: c short_numeral_small)
qed

text \<open>
  C4 as it is stated fails on a canonical text whose seconds are written without a
  decimal point: parse makes the seconds a float, and a float prints with one.
\<close>

theorem whole_seconds_counterexample:
  "format_parse ''P0Y0M0DT0H0M10S'' = Inr ''P0Y0M0DT0H0M10.0S''
   \<and> format_parse ''P0Y0M0DT0H0M10S'' \<noteq> Inr ''P0Y0M0DT0H0M10S''"
proof -
  have "parse ''P0Y0M0DT0H0M10S''
          = Inr \<lparr>years = 0, months = 0, days = 0, hours = 0, minutes = 0,
                 seconds = PyFloat (Finite 10)\<rparr>"
    by (simp add: parse_simps round_mag_10)
  then show ?thesis by (simp add: format_parse_def bind_err_def str_ten_seconds)
qed

lemma fadd_whole:
  assumes "n + m < 2 ^ 53"
  shows "fadd (Finite (of_nat n)) (Finite (of_nat m)) = Finite (of_nat (n + m))"
  using round_double_nat [OF assms] by simp

















subsection \<open>The texts that parse accepts\<close>

lemma py_int_ok: "(\<exists>i. py_int n = Inr i) \<longleftrightarrow> int_text n"
  by (simp add: py_int_def int_text_def)

lemma digits_take_drop:
  assumes "list_all is_digit ip"
  shows "takeWhile is_digit (ip @ CHR ''.'' # fp) = ip"
    and "dropWhile is_digit (ip @ CHR ''.'' # fp) = CHR ''.'' # fp"
    and "takeWhile is_digit ip = ip" and "dropWhile is_digit ip = []"
  using assms by (simp_all add: list_all_iff letters_not_digits)

lemma py_float_ok: "(\<exists>f. py_float x = Inr f) \<longleftrightarrow> float_text x"
proof
  assume "\<exists>f. py_float x = Inr f"
  then obtain f where f: "py_float x = Inr f" ..
  have x: "x = takeWhile is_digit x @ dropWhile is_digit x" by simp
  have t: "list_all is_digit (takeWhile is_digit x)"
    by (simp add: list_all_iff) (meson set_takeWhileD)
  show "float_text x"
  proof (cases "dropWhile is_digit x")
    case Nil
    with f have "takeWhile is_digit x \<noteq> []"
      unfolding py_float_def Nil by (auto simp: Let_def split: if_splits)
    moreover have "x = takeWhile is_digit x" using x unfolding Nil by simp
    ultimately show ?thesis using t by (metis float_text_def integer_text_def)
  next
    case (Cons c fp)
    with f have c: "c = CHR ''.''" and fp: "list_all is_digit fp"
      and ne: "takeWhile is_digit x \<noteq> [] \<or> fp \<noteq> []"
      unfolding py_float_def Cons by (auto simp: Let_def split: if_splits)
    have "x = takeWhile is_digit x @ ''.'' @ fp" using x unfolding Cons c by simp
    with t fp ne show ?thesis unfolding float_text_def by blast
  qed
next
  assume "float_text x"
  then consider (int) "integer_text x"
    | (frac) ip fp where "x = ip @ ''.'' @ fp" "list_all is_digit ip" "list_all is_digit fp"
        "ip \<noteq> [] \<or> fp \<noteq> []"
    unfolding float_text_def by blast
  then show "\<exists>f. py_float x = Inr f"
  proof cases
    case int
    then have "list_all is_digit x" "x \<noteq> []" by (simp_all add: integer_text_def)
    then show ?thesis
      unfolding py_float_def by (simp add: digits_take_drop(3,4) Let_def)
  next
    case frac
    show ?thesis
      unfolding py_float_def frac(1) using frac(2-4)
      by (auto simp: digits_take_drop(1,2) Let_def)
  qed
qed

lemma float_text_sec_chars: "float_text x \<Longrightarrow> list_all is_sec_char x"
  using py_float_ok py_float_sec_chars by blast

lemma integer_text_digits: "integer_text n \<Longrightarrow> list_all is_digit n"
  by (simp add: integer_text_def)

lemma int_text_digits: "int_text n \<Longrightarrow> list_all is_digit n"
  by (simp add: int_text_def)

lemma digit_run_digits: "digit_run n \<Longrightarrow> list_all is_digit n"
  by (simp add: digit_run_def)

lemma sec_run_chars: "sec_run n \<Longrightarrow> list_all is_sec_char n"
  by (simp add: sec_run_def)

lemma opt_group_split:
  assumes "opt_group cls L s = (g, r)"
  shows "(g = None \<and> s = r) \<or> (\<exists>n. g = Some n \<and> s = n @ L # r \<and> list_all cls n)"
proof (cases g)
  case None
  with assms show ?thesis using opt_group_None by fastforce
next
  case (Some n)
  with assms show ?thesis using opt_group_Some [of cls L s n r] by simp
qed

lemma opt_group_component:
  assumes "c \<in> component num L" and "\<And>n. num n \<Longrightarrow> list_all cls n" and "\<not> cls L"
    and "dropWhile cls r = [] \<or> hd (dropWhile cls r) \<noteq> L"
  shows "opt_group cls L (c @ r) = (if c = [] then None else Some (butlast c), r)"
proof (cases "c = []")
  case True
  then show ?thesis using opt_group_absent [OF assms(4)] by simp
next
  case False
  with assms(1) obtain n where n: "c = n @ [L]" "num n" by (auto simp: component_def)
  show ?thesis
    using opt_group_present [OF assms(2) [OF n(2)] assms(3), of r] by (simp add: n(1))
qed

lemma lead_component:
  assumes "c \<in> component num L" and "\<And>n. num n \<Longrightarrow> list_all cls n" and "\<not> cls L"
    and "dropWhile cls r = [] \<or> hd (dropWhile cls r) \<in> A"
  shows "dropWhile cls (c @ r) = [] \<or> hd (dropWhile cls (c @ r)) \<in> insert L A"
proof (cases "c = []")
  case True
  then show ?thesis using assms(4) by auto
next
  case False
  with assms(1) obtain n where n: "c = n @ [L]" "num n" by (auto simp: component_def)
  have "dropWhile cls (c @ r) = L # r"
    using assms(2) [OF n(2)] assms(3) by (simp add: n(1) list_all_iff)
  then show ?thesis by simp
qed

lemma int_component_group:
  assumes "c \<in> component int_text L"
  shows "\<exists>i. py_int (group_or_0 (grp c)) = Inr i"
proof (cases "c = []")
  case True
  then show ?thesis
    by (simp add: grp_def group_or_0_def py_int_def is_digit_def int_max_str_digits_def)
next
  case False
  with assms obtain n where "c = n @ [L]" "int_text n" by (auto simp: component_def)
  then show ?thesis using py_int_ok [of n] by (simp add: grp_def group_or_0_def)
qed

lemma float_component_group:
  assumes "c \<in> component float_text L"
  shows "\<exists>f. py_float (group_or_0 (grp c)) = Inr f"
    and "c = [] \<Longrightarrow> py_float (group_or_0 (grp c)) = Inr (Finite 0)"
proof -
  have z: "py_float ''0'' = Inr (Finite 0)"
    by (simp add: py_float_def is_digit_def nat_of_digits_def digit_val_def round_double_def
          round_mag_def)
  show "c = [] \<Longrightarrow> py_float (group_or_0 (grp c)) = Inr (Finite 0)"
    by (simp add: grp_def group_or_0_def z)
  show "\<exists>f. py_float (group_or_0 (grp c)) = Inr f"
  proof (cases "c = []")
    case True
    then show ?thesis by (simp add: grp_def group_or_0_def z)
  next
    case False
    with assms obtain n where "c = n @ [L]" "float_text n" by (auto simp: component_def)
    then show ?thesis using py_float_ok [of n] by (simp add: grp_def group_or_0_def)
  qed
qed

lemma dropWhile_head:
  assumes "dropWhile P xs = c # r"
  shows "\<not> P c" and "c \<in> set xs"
proof -
  have "hd (dropWhile P xs) = c" "dropWhile P xs \<noteq> []" using assms by simp_all
  then show "\<not> P c" using hd_dropWhile [of P xs] by simp
  have "c \<in> set (dropWhile P xs)" using assms by simp
  then show "c \<in> set xs" by (rule set_mp [OF set_dropWhileD [THEN subsetI], rotated]) 
qed

lemma seconds_component_lead:
  assumes "sc \<in> component num CHR ''S''" and sec: "\<And>n. num n \<Longrightarrow> list_all is_sec_char n"
  shows "dropWhile is_digit sc = [] \<or> hd (dropWhile is_digit sc) \<in> {CHR ''.'', CHR ''S''}"
proof (cases "dropWhile is_digit sc")
  case Nil
  then show ?thesis by simp
next
  case (Cons c r)
  note h = dropWhile_head [OF Cons]
  from h(2) assms(1) obtain x where x: "sc = x @ ''S''" "num x"
    by (auto simp: component_def)
  from h(2) x(1) have "c \<in> set x \<or> c = CHR ''S''" by auto
  moreover have "\<forall>a\<in>set x. is_sec_char a"
    using sec [OF x(2)] by (simp add: list_all_iff)
  ultimately have "c = CHR ''.'' \<or> c = CHR ''S''"
    using h(1) by (auto simp: is_sec_char_def)
  then show ?thesis unfolding Cons by auto
qed

lemma time_groups_of_grammar:
  assumes h: "h \<in> component inum CHR ''H''"
    and mi: "mi \<in> component inum CHR ''M''"
    and sc: "sc \<in> component num CHR ''S''"
    and dig: "\<And>n. inum n \<Longrightarrow> list_all is_digit n"
    and sec: "\<And>n. num n \<Longrightarrow> list_all is_sec_char n"
  shows "time_groups (''T'' @ h @ mi @ sc) = Some (grp h, grp mi, grp sc)"
proof -
  have S: "opt_group is_sec_char CHR ''S'' sc = (grp sc, [])"
    using opt_group_component [where r = "[]", OF sc sec]
    by (simp add: letters_not_digits grp_def)
  have lead_sc: "dropWhile is_digit sc = [] \<or> hd (dropWhile is_digit sc) \<noteq> CHR ''M''"
    using seconds_component_lead [OF sc sec] by auto
  have M: "opt_group is_digit CHR ''M'' (mi @ sc) = (grp mi, sc)"
    using opt_group_component [OF mi dig _ lead_sc]
    by (simp add: letters_not_digits grp_def)
  have "dropWhile is_digit (mi @ sc) = []
        \<or> hd (dropWhile is_digit (mi @ sc)) \<in> insert CHR ''M'' {CHR ''.'', CHR ''S''}"
    by (rule lead_component [OF mi dig _ seconds_component_lead [OF sc sec]])
       (simp_all add: letters_not_digits)
  then have lead_mi: "dropWhile is_digit (mi @ sc) = []
        \<or> hd (dropWhile is_digit (mi @ sc)) \<noteq> CHR ''H''"
    by auto
  have H: "opt_group is_digit CHR ''H'' (h @ mi @ sc) = (grp h, mi @ sc)"
    using opt_group_component [OF h dig _ lead_mi]
    by (simp add: letters_not_digits grp_def)
  show ?thesis
    by (simp add: time_groups_def H M S at_end_def)
qed

lemma date_groups_of_grammar:
  assumes y: "y \<in> component inum CHR ''Y''"
    and mo: "mo \<in> component inum CHR ''M''"
    and d: "d \<in> component inum CHR ''D''"
    and dig: "\<And>n. inum n \<Longrightarrow> list_all is_digit n"
    and t: "t = [] \<or> hd t = CHR ''T''"
  shows "opt_group is_digit CHR ''Y'' (y @ mo @ d @ t) = (grp y, mo @ d @ t)"
    and "opt_group is_digit CHR ''M'' (mo @ d @ t) = (grp mo, d @ t)"
    and "opt_group is_digit CHR ''D'' (d @ t) = (grp d, t)"
proof -
  have lead_t: "dropWhile is_digit t = [] \<or> hd (dropWhile is_digit t) \<in> {CHR ''T''}"
  proof (cases t)
    case Nil
    then show ?thesis by simp
  next
    case (Cons c r)
    with t have "c = CHR ''T''" by simp
    then show ?thesis unfolding Cons by (simp add: letters_not_digits)
  qed
  then have nt: "dropWhile is_digit t = [] \<or> hd (dropWhile is_digit t) \<noteq> CHR ''D''" by auto
  show "opt_group is_digit CHR ''D'' (d @ t) = (grp d, t)"
    using opt_group_component [OF d dig _ nt]
    by (simp add: letters_not_digits grp_def)
  have lead_d: "dropWhile is_digit (d @ t) = []
        \<or> hd (dropWhile is_digit (d @ t)) \<in> insert CHR ''D'' {CHR ''T''}"
    by (rule lead_component [OF d dig _ lead_t])
       (simp_all add: letters_not_digits)
  then have nd: "dropWhile is_digit (d @ t) = []
        \<or> hd (dropWhile is_digit (d @ t)) \<noteq> CHR ''M''"
    by auto
  show "opt_group is_digit CHR ''M'' (mo @ d @ t) = (grp mo, d @ t)"
    using opt_group_component [OF mo dig _ nd]
    by (simp add: letters_not_digits grp_def)
  have "dropWhile is_digit (mo @ d @ t) = []
        \<or> hd (dropWhile is_digit (mo @ d @ t)) \<in> insert CHR ''M'' (insert CHR ''D'' {CHR ''T''})"
    by (rule lead_component [OF mo dig _ lead_d])
       (simp_all add: letters_not_digits)
  then have nm: "dropWhile is_digit (mo @ d @ t) = []
        \<or> hd (dropWhile is_digit (mo @ d @ t)) \<noteq> CHR ''Y''"
    by auto
  show "opt_group is_digit CHR ''Y'' (y @ mo @ d @ t) = (grp y, mo @ d @ t)"
    using opt_group_component [OF y dig _ nm]
    by (simp add: letters_not_digits grp_def)
qed

lemma re_search_of_grammar:
  assumes y: "y \<in> component inum CHR ''Y''"
    and mo: "mo \<in> component inum CHR ''M''"
    and d: "d \<in> component inum CHR ''D''"
    and dig: "\<And>n. inum n \<Longrightarrow> list_all is_digit n"
  shows "re_search (''P'' @ y @ mo @ d) = Some (grp y, grp mo, grp d, None, None, None)"
    and "h \<in> component inum CHR ''H'' \<Longrightarrow> mi \<in> component inum CHR ''M''
         \<Longrightarrow> sc \<in> component num CHR ''S''
         \<Longrightarrow> (\<And>n. num n \<Longrightarrow> list_all is_sec_char n)
         \<Longrightarrow> re_search (''P'' @ y @ mo @ d @ ''T'' @ h @ mi @ sc)
               = Some (grp y, grp mo, grp d, grp h, grp mi, grp sc)"
proof -
  note a = date_groups_of_grammar [OF y mo d dig, of "[]", simplified]
  show "re_search (''P'' @ y @ mo @ d) = Some (grp y, grp mo, grp d, None, None, None)"
    by (simp add: re_search_def a time_groups_def at_end_def)
next
  assume h: "h \<in> component inum CHR ''H''" and mi: "mi \<in> component inum CHR ''M''"
    and sc: "sc \<in> component num CHR ''S''"
    and sec: "\<And>n. num n \<Longrightarrow> list_all is_sec_char n"
  note b = date_groups_of_grammar [OF y mo d dig, of "''T'' @ h @ mi @ sc", simplified]
  note tg = time_groups_of_grammar [OF h mi sc dig sec, simplified]
  show "re_search (''P'' @ y @ mo @ d @ ''T'' @ h @ mi @ sc)
               = Some (grp y, grp mo, grp d, grp h, grp mi, grp sc)"
    by (simp add: re_search_def b tg)
qed

lemma group_component:
  assumes "opt_group cls L s = (g, r)" and "\<And>n. g = Some n \<Longrightarrow> list_all cls n \<Longrightarrow> num n"
  shows "\<exists>c. c \<in> component num L \<and> s = c @ r"
  using opt_group_split [OF assms(1)]
proof (elim disjE exE conjE)
  assume "g = None" "s = r"
  then show ?thesis by (intro exI [of _ "[]"]) (simp add: component_def)
next
  fix n assume n: "g = Some n" "s = n @ L # r" "list_all cls n"
  from assms(2) [OF n(1,3)] have "n @ [L] \<in> component num L" by (auto simp: component_def)
  then show ?thesis using n(2) by (intro exI [of _ "n @ [L]"]) simp
qed

lemma int_group_text:
  assumes "\<exists>i. py_int (group_or_0 g) = Inr i" and "g = Some n"
  shows "int_text n"
  using assms py_int_ok [of n] by (simp add: group_or_0_def)

lemma float_group_text:
  assumes "\<exists>f. py_float (group_or_0 g) = Inr f" and "g = Some n"
  shows "float_text n"
  using assms py_float_ok [of n] by (simp add: group_or_0_def)

lemma at_end_no_newline: "at_end t \<Longrightarrow> CHR 0x0A \<notin> set t \<Longrightarrow> t = []"
  by (auto simp: at_end_def)

text \<open>
  From a match back to the grammar: the text is made of the captured runs, so it belongs
  to the grammar of any notion of number that the captured runs satisfy.
\<close>

lemma time_texts_of_groups:
  assumes tg: "time_groups t = Some (g4, g5, g6)" and nl: "CHR 0x0A \<notin> set t"
    and i4: "\<And>n. g4 = Some n \<Longrightarrow> list_all is_digit n \<Longrightarrow> inum n"
    and i5: "\<And>n. g5 = Some n \<Longrightarrow> list_all is_digit n \<Longrightarrow> inum n"
    and f6: "\<And>n. g6 = Some n \<Longrightarrow> list_all is_sec_char n \<Longrightarrow> num n"
  shows "t \<in> time_texts inum num"
proof -
  from tg obtain t0 where t: "t = CHR ''T'' # t0"
    by (cases t) (auto simp: time_groups_def split: if_splits)
  obtain a t1 where H: "opt_group is_digit CHR ''H'' t0 = (a, t1)" by (cases "opt_group is_digit CHR ''H'' t0")
  obtain b t2 where M: "opt_group is_digit CHR ''M'' t1 = (b, t2)" by (cases "opt_group is_digit CHR ''M'' t1")
  obtain c t3 where S: "opt_group is_sec_char CHR ''S'' t2 = (c, t3)" by (cases "opt_group is_sec_char CHR ''S'' t2")
  from tg have g: "a = g4" "b = g5" "c = g6" and e: "at_end t3"
    unfolding t by (auto simp: time_groups_def H M S split: if_splits)
  from group_component [where num = inum, OF H [unfolded g(1)] i4]
  obtain h where h: "h \<in> component inum CHR ''H''" "t0 = h @ t1" by auto
  from group_component [where num = inum, OF M [unfolded g(2)] i5]
  obtain mi where mi: "mi \<in> component inum CHR ''M''" "t1 = mi @ t2" by auto
  from group_component [where num = num, OF S [unfolded g(3)] f6]
  obtain sc where sc: "sc \<in> component num CHR ''S''" "t2 = sc @ t3" by auto
  have "CHR 0x0A \<notin> set t3" using nl unfolding t h(2) mi(2) sc(2) by simp
  with e have "t3 = []" by (rule at_end_no_newline)
  then have "t = ''T'' @ h @ mi @ sc" unfolding t h(2) mi(2) sc(2) by simp
  with h(1) mi(1) sc(1) show ?thesis unfolding time_texts_def by blast
qed

lemma duration_texts_of_search:
  assumes rs: "re_search s = Some (g1, g2, g3, g4, g5, g6)" and nl: "CHR 0x0A \<notin> set s"
    and i1: "\<And>n. g1 = Some n \<Longrightarrow> list_all is_digit n \<Longrightarrow> inum n"
    and i2: "\<And>n. g2 = Some n \<Longrightarrow> list_all is_digit n \<Longrightarrow> inum n"
    and i3: "\<And>n. g3 = Some n \<Longrightarrow> list_all is_digit n \<Longrightarrow> inum n"
    and i4: "\<And>n. g4 = Some n \<Longrightarrow> list_all is_digit n \<Longrightarrow> inum n"
    and i5: "\<And>n. g5 = Some n \<Longrightarrow> list_all is_digit n \<Longrightarrow> inum n"
    and f6: "\<And>n. g6 = Some n \<Longrightarrow> list_all is_sec_char n \<Longrightarrow> num n"
  shows "s \<in> duration_texts inum num"
proof -
  from rs obtain s0 where s: "s = CHR ''P'' # s0"
    by (cases s) (auto simp: re_search_def split: if_splits)
  obtain a s1 where Y: "opt_group is_digit CHR ''Y'' s0 = (a, s1)" by (cases "opt_group is_digit CHR ''Y'' s0")
  obtain b s2 where M: "opt_group is_digit CHR ''M'' s1 = (b, s2)" by (cases "opt_group is_digit CHR ''M'' s1")
  obtain c s3 where D: "opt_group is_digit CHR ''D'' s2 = (c, s3)" by (cases "opt_group is_digit CHR ''D'' s2")
  from rs have g: "a = g1" "b = g2" "c = g3"
    and tm: "time_groups s3 = Some (g4, g5, g6) \<or> (time_groups s3 = None \<and> at_end s3)"
    unfolding s by (auto simp: re_search_def Y M D split: option.splits if_splits)
  from group_component [where num = inum, OF Y [unfolded g(1)] i1]
  obtain y where y: "y \<in> component inum CHR ''Y''" "s0 = y @ s1" by auto
  from group_component [where num = inum, OF M [unfolded g(2)] i2]
  obtain mo where mo: "mo \<in> component inum CHR ''M''" "s1 = mo @ s2" by auto
  from group_component [where num = inum, OF D [unfolded g(3)] i3]
  obtain d where d: "d \<in> component inum CHR ''D''" "s2 = d @ s3" by auto
  have nl3: "CHR 0x0A \<notin> set s3" using nl unfolding s y(2) mo(2) d(2) by simp
  have "s3 = [] \<or> s3 \<in> time_texts inum num"
  proof (cases "time_groups s3")
    case None
    with tm have "at_end s3" by simp
    then show ?thesis using at_end_no_newline [OF _ nl3] by simp
  next
    case (Some x)
    with tm have tg: "time_groups s3 = Some (g4, g5, g6)" by simp
    show ?thesis using time_texts_of_groups [OF tg nl3 i4 i5 f6] by simp
  qed
  moreover have "s = ''P'' @ y @ mo @ d @ s3" unfolding s y(2) mo(2) d(2) by simp
  ultimately show ?thesis using y(1) mo(1) d(1) unfolding duration_texts_def by blast
qed

lemma pattern_texts_of_search:
  assumes "re_search s = Some g" and "CHR 0x0A \<notin> set s"
  shows "s \<in> duration_texts digit_run sec_run"
proof -
  obtain g1 g2 g3 g4 g5 g6 where g: "g = (g1, g2, g3, g4, g5, g6)" by (cases g) auto
  show ?thesis
    by (rule duration_texts_of_search [OF assms(1) [unfolded g] assms(2)])
       (simp_all add: digit_run_def sec_run_def)
qed

lemma duration_texts_of_parse:
  assumes p: "parse s = Inr dv" and nl: "CHR 0x0A \<notin> set s"
  shows "s \<in> duration_texts int_text float_text"
proof -
  from p obtain g1 g2 g3 g4 g5 g6 where rs: "re_search s = Some (g1, g2, g3, g4, g5, g6)"
    by (auto simp: parse_def split: option.splits)
  from p have ok: "\<exists>i. py_int (group_or_0 g1) = Inr i" "\<exists>i. py_int (group_or_0 g2) = Inr i"
      "\<exists>i. py_int (group_or_0 g3) = Inr i" "\<exists>i. py_int (group_or_0 g4) = Inr i"
      "\<exists>i. py_int (group_or_0 g5) = Inr i" "\<exists>f. py_float (group_or_0 g6) = Inr f"
    unfolding parse_def rs by (auto simp: bind_err_def split: sum.splits)
  show ?thesis
    by (rule duration_texts_of_search [OF rs nl])
       (use ok int_group_text float_group_text in blast)+
qed

lemma grammar_search:
  assumes dig: "\<And>n. inum n \<Longrightarrow> list_all is_digit n"
    and sec: "\<And>n. num n \<Longrightarrow> list_all is_sec_char n" and s: "s \<in> duration_texts inum num"
  shows "\<exists>g1 g2 g3 g4 g5 g6. re_search s = Some (g1, g2, g3, g4, g5, g6)
           \<and> (\<forall>n. g6 = Some n \<longrightarrow> num n)"
proof -
  from s obtain y mo d t where t: "s = ''P'' @ y @ mo @ d @ t"
      "y \<in> component inum CHR ''Y''" "mo \<in> component inum CHR ''M''"
      "d \<in> component inum CHR ''D''" "t = [] \<or> t \<in> time_texts inum num"
    unfolding duration_texts_def by blast
  from t(5) show ?thesis
  proof
    assume "t = []"
    then show ?thesis using re_search_of_grammar(1) [OF t(2-4) dig] t(1) by simp
  next
    assume "t \<in> time_texts inum num"
    then obtain h mi sc where u: "t = ''T'' @ h @ mi @ sc"
        "h \<in> component inum CHR ''H''" "mi \<in> component inum CHR ''M''"
        "sc \<in> component num CHR ''S''"
      unfolding time_texts_def by blast
    have "\<forall>n. grp sc = Some n \<longrightarrow> num n"
      using u(4) by (auto simp: grp_def component_def)
    then show ?thesis
      using re_search_of_grammar(2) [OF t(2-4) dig u(2-4) sec] unfolding t(1) u(1) by blast
  qed
qed

lemma parse_error_kinds:
  "parse s = Inl AssertionError \<longleftrightarrow> re_search s = None"
  "parse s = Inl e \<Longrightarrow> e = AssertionError \<or> e = ValueError"
proof -
  have i: "py_int x = Inl e' \<Longrightarrow> e' = ValueError" for x e'
    by (auto simp: py_int_def split: if_splits)
  have f: "py_float x = Inl e' \<Longrightarrow> e' = ValueError" for x e'
    by (auto simp: py_float_def Let_def split: if_splits list.splits)
  have k: "e = AssertionError \<and> re_search s = None \<or> e = ValueError \<and> re_search s \<noteq> None"
    if "parse s = Inl e" for e
    using that i f
    by (auto simp: parse_def bind_err_def split: option.splits sum.splits)
  show "parse s = Inl AssertionError \<longleftrightarrow> re_search s = None"
    using k [of AssertionError] by (auto simp: parse_def)
  show "parse s = Inl e \<Longrightarrow> e = AssertionError \<or> e = ValueError"
    using k [of e] by auto
qed

lemma parse_of_grammar:
  assumes y: "y \<in> component int_text CHR ''Y''"
    and mo: "mo \<in> component int_text CHR ''M''"
    and d: "d \<in> component int_text CHR ''D''"
  shows "\<exists>dv. parse (''P'' @ y @ mo @ d) = Inr dv \<and> seconds dv = PyFloat (Finite 0)"
    and "h \<in> component int_text CHR ''H'' \<Longrightarrow> mi \<in> component int_text CHR ''M''
         \<Longrightarrow> sc \<in> component float_text CHR ''S''
         \<Longrightarrow> \<exists>dv. parse (''P'' @ y @ mo @ d @ ''T'' @ h @ mi @ sc) = Inr dv
                  \<and> (sc = [] \<longrightarrow> seconds dv = PyFloat (Finite 0))"
proof -
  from int_component_group [OF y] obtain i1 where i1: "py_int (group_or_0 (grp y)) = Inr i1" ..
  from int_component_group [OF mo] obtain i2 where i2: "py_int (group_or_0 (grp mo)) = Inr i2" ..
  from int_component_group [OF d] obtain i3 where i3: "py_int (group_or_0 (grp d)) = Inr i3" ..
  have z: "py_int (group_or_0 None) = Inr 0" "py_float (group_or_0 None) = Inr (Finite 0)"
    by (simp_all add: group_or_0_def py_int_def py_float_def is_digit_def nat_of_digits_def
          digit_val_def round_double_def round_mag_def int_max_str_digits_def)
  note rs1 = re_search_of_grammar(1) [OF y mo d int_text_digits]
  show "\<exists>dv. parse (''P'' @ y @ mo @ d) = Inr dv \<and> seconds dv = PyFloat (Finite 0)"
    using rs1 by (simp add: parse_def bind_err_def i1 i2 i3 z)
  assume h: "h \<in> component int_text CHR ''H''" and mi: "mi \<in> component int_text CHR ''M''"
    and sc: "sc \<in> component float_text CHR ''S''"
  from int_component_group [OF h] obtain i4 where i4: "py_int (group_or_0 (grp h)) = Inr i4" ..
  from int_component_group [OF mi] obtain i5 where i5: "py_int (group_or_0 (grp mi)) = Inr i5" ..
  from float_component_group(1) [OF sc] obtain f where f: "py_float (group_or_0 (grp sc)) = Inr f" ..
  have f0: "sc = [] \<longrightarrow> f = Finite 0"
    using float_component_group(2) [OF sc] f by auto
  note rs = re_search_of_grammar(2) [OF y mo d int_text_digits h mi sc float_text_sec_chars]
  show "\<exists>dv. parse (''P'' @ y @ mo @ d @ ''T'' @ h @ mi @ sc) = Inr dv
                  \<and> (sc = [] \<longrightarrow> seconds dv = PyFloat (Finite 0))"
    using f0 rs by (simp add: parse_def bind_err_def i1 i2 i3 i4 i5 f)
qed

lemma parse_of_duration_texts:
  assumes "s \<in> duration_texts int_text float_text"
  shows "\<exists>dv. parse s = Inr dv"
proof -
  from assms obtain y mo d tm where t: "s = ''P'' @ y @ mo @ d @ tm"
      "y \<in> component int_text CHR ''Y''" "mo \<in> component int_text CHR ''M''"
      "d \<in> component int_text CHR ''D''" "tm = [] \<or> tm \<in> time_texts int_text float_text"
    unfolding duration_texts_def by blast
  from t(5) show ?thesis
  proof
    assume "tm = []"
    then show ?thesis using parse_of_grammar(1) [OF t(2-4)] t(1) by auto
  next
    assume "tm \<in> time_texts int_text float_text"
    then obtain h mi sc where u: "tm = ''T'' @ h @ mi @ sc"
        "h \<in> component int_text CHR ''H''" "mi \<in> component int_text CHR ''M''"
        "sc \<in> component float_text CHR ''S''"
      unfolding time_texts_def by blast
    show ?thesis using parse_of_grammar(2) [OF t(2-4) u(2-4)] unfolding t(1) u(1) by blast
  qed
qed

lemma spec_seconds_sec_chars: "spec_seconds n \<Longrightarrow> list_all is_sec_char n"
  by (auto simp: spec_seconds_def integer_text_def list_all_iff is_sec_char_def)

lemma not_spec_seconds: "\<not> spec_seconds ''5.''"
proof
  assume "spec_seconds ''5.''"
  then consider "integer_text ''5.''"
    | ip fp where "''5.'' = ip @ ''.'' @ fp" "integer_text fp"
    unfolding spec_seconds_def by blast
  then show False
  proof cases
    case 1
    then show False by (simp add: integer_text_def is_digit_def)
  next
    case 2
    then have ne: "fp \<noteq> []" and dg: "\<forall>c\<in>set fp. is_digit c"
      by (simp_all add: integer_text_def list_all_iff)
    have "last ''5.'' = last (ip @ ''.'' @ fp)" by (rule arg_cong [OF 2(1)])
    also have "\<dots> = last fp" using ne by simp
    finally have "last fp = CHR ''.''" by simp
    moreover have "last fp \<in> set fp" using ne by (rule last_in_set)
    ultimately have "is_digit CHR ''.''" using dg by metis
    then show False by (simp add: is_digit_def)
  qed
qed

lemma round_mag_5: "round_mag 5 = Finite 5"
  using round_mag_nat [of 5] by simp

text \<open>
  C6 (as the code has it). On a text without a newline, parse returns a duration exactly
  when the text matches \<^verbatim>\<open>P[nY][nM][nD][T[nH][nM][xS]]\<close>, every component optional, each
  \<^verbatim>\<open>n\<close> a non-empty run of at most 4300 digits and \<^verbatim>\<open>x\<close> a run of digits with at most one
  point and at least one digit. It raises AssertionError exactly when the text does not
  even match the pattern, that is \<^verbatim>\<open>P[aY][aM][aD][T[aH][aM][bS]]\<close> with each \<^verbatim>\<open>a\<close> a run of
  digits and \<^verbatim>\<open>b\<close> a run of digits and points, the empty run allowed; it raises ValueError
  exactly when the text matches the pattern and one of its numbers is empty, too long or
  malformed. It raises nothing else, on any text. When the time portion or the seconds
  component is absent, the seconds are the float zero.
\<close>

theorem parse_matches_grammar:
  "(CHR 0x0A \<notin> set s \<longrightarrow>
      ((\<exists>dv. parse s = Inr dv) \<longleftrightarrow> s \<in> duration_texts int_text float_text)
      \<and> (parse s = Inl AssertionError \<longleftrightarrow> s \<notin> duration_texts digit_run sec_run)
      \<and> (parse s = Inl ValueError \<longleftrightarrow>
           s \<in> duration_texts digit_run sec_run \<and> s \<notin> duration_texts int_text float_text))
   \<and> (parse t = Inl e \<longrightarrow> e = AssertionError \<or> e = ValueError)
   \<and> (y \<in> component int_text CHR ''Y'' \<and> mo \<in> component int_text CHR ''M''
       \<and> d \<in> component int_text CHR ''D'' \<longrightarrow>
         (\<exists>dv. parse (''P'' @ y @ mo @ d) = Inr dv \<and> seconds dv = PyFloat (Finite 0)))
   \<and> (y \<in> component int_text CHR ''Y'' \<and> mo \<in> component int_text CHR ''M''
       \<and> d \<in> component int_text CHR ''D'' \<and> h \<in> component int_text CHR ''H''
       \<and> mi \<in> component int_text CHR ''M'' \<longrightarrow>
         (\<exists>dv. parse (''P'' @ y @ mo @ d @ ''T'' @ h @ mi) = Inr dv
               \<and> seconds dv = PyFloat (Finite 0)))"
proof -
  have p1: "CHR 0x0A \<notin> set s \<longrightarrow>
      ((\<exists>dv. parse s = Inr dv) \<longleftrightarrow> s \<in> duration_texts int_text float_text)
      \<and> (parse s = Inl AssertionError \<longleftrightarrow> s \<notin> duration_texts digit_run sec_run)
      \<and> (parse s = Inl ValueError \<longleftrightarrow>
           s \<in> duration_texts digit_run sec_run \<and> s \<notin> duration_texts int_text float_text)"
  proof
    assume nl: "CHR 0x0A \<notin> set s"
    have ok: "(\<exists>dv. parse s = Inr dv) \<longleftrightarrow> s \<in> duration_texts int_text float_text"
      using parse_of_duration_texts duration_texts_of_parse [OF _ nl] by blast
    have "re_search s \<noteq> None \<longleftrightarrow> s \<in> duration_texts digit_run sec_run"
      using pattern_texts_of_search [OF _ nl]
        grammar_search [of digit_run sec_run s, OF digit_run_digits sec_run_chars]
      by (cases "re_search s") auto
    then have ae: "parse s = Inl AssertionError \<longleftrightarrow> s \<notin> duration_texts digit_run sec_run"
      unfolding parse_error_kinds(1) by blast
    have ve: "parse s = Inl ValueError \<longleftrightarrow>
           s \<in> duration_texts digit_run sec_run \<and> s \<notin> duration_texts int_text float_text"
    proof (cases "parse s")
      case (Inl e')
      with parse_error_kinds(2) [of s e'] ok ae show ?thesis by auto
    next
      case (Inr dv)
      with ok show ?thesis by auto
    qed
    show "((\<exists>dv. parse s = Inr dv) \<longleftrightarrow> s \<in> duration_texts int_text float_text)
      \<and> (parse s = Inl AssertionError \<longleftrightarrow> s \<notin> duration_texts digit_run sec_run)
      \<and> (parse s = Inl ValueError \<longleftrightarrow>
           s \<in> duration_texts digit_run sec_run \<and> s \<notin> duration_texts int_text float_text)"
      using ok ae ve by (intro conjI)
  qed
  have p2: "parse t = Inl e \<longrightarrow> e = AssertionError \<or> e = ValueError"
    using parse_error_kinds(2) by blast
  have p3: "y \<in> component int_text CHR ''Y'' \<and> mo \<in> component int_text CHR ''M''
       \<and> d \<in> component int_text CHR ''D'' \<longrightarrow>
         (\<exists>dv. parse (''P'' @ y @ mo @ d) = Inr dv \<and> seconds dv = PyFloat (Finite 0))"
    using parse_of_grammar(1) by blast
  have empty: "[] \<in> component float_text CHR ''S''" by (simp add: component_def)
  have p4: "y \<in> component int_text CHR ''Y'' \<and> mo \<in> component int_text CHR ''M''
       \<and> d \<in> component int_text CHR ''D'' \<and> h \<in> component int_text CHR ''H''
       \<and> mi \<in> component int_text CHR ''M'' \<longrightarrow>
         (\<exists>dv. parse (''P'' @ y @ mo @ d @ ''T'' @ h @ mi) = Inr dv
               \<and> seconds dv = PyFloat (Finite 0))"
    using parse_of_grammar(2) [of y mo d h mi "[]", OF _ _ _ _ _ empty] by simp
  show ?thesis using p1 p2 p3 p4 by (intro conjI)
qed

lemma component_present: "num n \<Longrightarrow> n @ [L] \<in> component num L"
  by (auto simp: component_def)

lemma component_absent: "[] \<in> component num L"
  by (simp add: component_def)

theorem parse_matches_grammar_witness:
  "CHR 0x0A \<notin> set ''PY''
   \<and> parse ''PY'' = Inl ValueError
   \<and> ''PY'' \<in> duration_texts digit_run sec_run
   \<and> ''PY'' \<notin> duration_texts int_text float_text
   \<and> ''1Y'' \<in> component int_text CHR ''Y'' \<and> ''4H'' \<in> component int_text CHR ''H''
   \<and> (\<exists>dv. parse ''P1Y'' = Inr dv \<and> seconds dv = PyFloat (Finite 0))
   \<and> (\<exists>dv. parse ''P1YT4H'' = Inr dv \<and> seconds dv = PyFloat (Finite 0))"
proof -
  have c: "''1Y'' \<in> component int_text CHR ''Y''" "''4H'' \<in> component int_text CHR ''H''"
    using component_present [of int_text "''1''" "CHR ''Y''"]
      component_present [of int_text "''4''" "CHR ''H''"]
    by (simp_all add: int_text_def is_digit_def int_max_str_digits_def)
  have e: "parse ''PY'' = Inl ValueError"
    by (simp add: parse_simps)
  show ?thesis
    using parse_matches_grammar [of "''PY''" "''PY''" ValueError "''1Y''" "[]" "[]" "''4H''" "[]"]
      c e component_absent
    by simp
qed

text \<open>
  C6 as it is stated fails on seconds that \<^verbatim>\<open>float\<close> reads although they are not of the
  form \<^verbatim>\<open>n\<close> or \<^verbatim>\<open>n.n\<close>: \<^verbatim>\<open>PT5.S\<close> is outside the grammar and parses to five seconds.
\<close>

theorem seconds_point_counterexample:
  "parse ''PT5.S'' = Inr \<lparr>years = 0, months = 0, days = 0, hours = 0, minutes = 0,
                          seconds = PyFloat (Finite 5)\<rparr>
   \<and> ''PT5.S'' \<notin> duration_texts integer_text spec_seconds"
proof -
  have rs: "re_search ''PT5.S'' = Some (None, None, None, None, None, Some ''5.'')"
    by (simp add: re_search_def time_groups_def opt_group_def is_digit_def is_sec_char_def
          at_end_def)
  have "''PT5.S'' \<notin> duration_texts integer_text spec_seconds"
    using grammar_search [of integer_text spec_seconds "''PT5.S''",
        OF integer_text_digits spec_seconds_sec_chars]
      not_spec_seconds
    unfolding rs by auto
  moreover have "parse ''PT5.S'' = Inr \<lparr>years = 0, months = 0, days = 0, hours = 0,
      minutes = 0, seconds = PyFloat (Finite 5)\<rparr>"
    by (simp add: parse_simps round_mag_5)
  ultimately show ?thesis by simp
qed

text \<open>
  The anchor \<^verbatim>\<open>$\<close> also lets one newline at the end of the text pass, and a number of
  more digits than \<^verbatim>\<open>int\<close> converts is refused although it is an integer of the grammar.
\<close>

lemma trailing_newline_accepted:
  "parse (''P1Y'' @ [CHR 0x0A])
     = Inr \<lparr>years = 1, months = 0, days = 0, hours = 0, minutes = 0,
            seconds = PyFloat (Finite 0)\<rparr>"
  by (simp add: parse_simps round_mag_0)

lemma long_number_refused:
  assumes "list_all is_digit n" and "int_max_str_digits < length n"
  shows "parse (''P'' @ n @ ''Y'') = Inl ValueError"
proof -
  have c: "n @ ''Y'' \<in> component digit_run CHR ''Y''"
    using component_present [of digit_run n "CHR ''Y''"] assms(1) by (simp add: digit_run_def)
  have "re_search (''P'' @ (n @ ''Y'') @ [] @ [])
          = Some (grp (n @ ''Y''), grp [], grp [], None, None, None)"
    by (rule re_search_of_grammar(1) [OF c component_absent component_absent digit_run_digits])
  then have rs: "re_search (''P'' @ n @ ''Y'') = Some (Some n, None, None, None, None, None)"
    by (simp add: grp_def butlast_append)
  show ?thesis
    unfolding parse_def rs using assms(2)
    by (simp add: group_or_0_def bind_err_def py_int_def)
qed

subsection \<open>Adding durations\<close>

lemma fadd_commute: "fadd x y = fadd y x"
  by (cases x; cases y) (simp_all add: add.commute)

lemma py_add_commute: "py_add x y = py_add y x"
  by (cases x; cases y) (simp_all add: add.commute fadd_commute split: sum.splits)

lemma ISO8601_add_commute: "ISO8601_add a b = ISO8601_add b a"
  by (simp add: ISO8601_add_def py_add_commute [of "seconds a"] add.commute)

lemma ISO8601_add_fields:
  assumes "ISO8601_add a b = Inr c"
  shows "years c = years a + years b" "months c = months a + months b"
    "days c = days a + days b" "hours c = hours a + hours b"
    "minutes c = minutes a + minutes b" "py_add (seconds a) (seconds b) = Inr (seconds c)"
  using assms by (auto simp: ISO8601_add_def bind_err_def split: sum.splits)

lemma float_of_int_whole:
  assumes "n < 2 ^ 53"
  shows "float_of_int (int n) = Inr (Finite (of_nat n))"
  using round_double_nat [OF assms] by (simp add: float_of_int_def)

lemma round_double_whole_sum:
  assumes "n + m < 2 ^ 53"
  shows "round_double (of_nat n + of_nat m) = Finite (of_nat n + of_nat m)"
  using round_double_nat [OF assms] by simp

lemma py_add_whole:
  assumes "whole_number x n" and "whole_number y m" and "n + m < 2 ^ 53"
  shows "\<exists>z. py_add x y = Inr z \<and> whole_number z (n + m)
             \<and> (z = PyInt (int (n + m)) \<longleftrightarrow> x = PyInt (int n) \<and> y = PyInt (int m))"
proof -
  have n: "n < 2 ^ 53" and m: "m < 2 ^ 53" using assms(3) by simp_all
  note f = float_of_int_whole [OF n] float_of_int_whole [OF m]
    round_double_whole_sum [OF assms(3)]
  from assms(1,2) show ?thesis
    unfolding whole_number_def
    by (elim disjE) (simp_all add: f)
qed


lemma add3_whole:
  assumes "whole_number (seconds a) i" and "whole_number (seconds b) j"
    and "whole_number (seconds c) k" and "i + j + k < 2 ^ 53"
  shows "add3_left a b c = add3_right a b c"
proof -
  have ij: "i + j < 2 ^ 53" and jk: "j + k < 2 ^ 53" and ijk: "i + (j + k) < 2 ^ 53"
    using assms(4) by simp_all
  from py_add_whole [OF assms(1,2) ij] obtain x
    where x: "py_add (seconds a) (seconds b) = Inr x" "whole_number x (i + j)"
      "x = PyInt (int (i + j)) \<longleftrightarrow> seconds a = PyInt (int i) \<and> seconds b = PyInt (int j)"
    by blast
  from py_add_whole [OF x(2) assms(3,4)] obtain l
    where l: "py_add x (seconds c) = Inr l" "whole_number l (i + j + k)"
      "l = PyInt (int (i + j + k)) \<longleftrightarrow> x = PyInt (int (i + j)) \<and> seconds c = PyInt (int k)"
    by blast
  from py_add_whole [OF assms(2,3) jk] obtain y
    where y: "py_add (seconds b) (seconds c) = Inr y" "whole_number y (j + k)"
      "y = PyInt (int (j + k)) \<longleftrightarrow> seconds b = PyInt (int j) \<and> seconds c = PyInt (int k)"
    by blast
  from py_add_whole [OF assms(1) y(2) ijk] obtain r
    where r: "py_add (seconds a) y = Inr r" "whole_number r (i + (j + k))"
      "r = PyInt (int (i + (j + k))) \<longleftrightarrow> seconds a = PyInt (int i) \<and> y = PyInt (int (j + k))"
    by blast
  have "l = r"
  proof (cases "l = PyInt (int (i + j + k))")
    case True
    with l(3) x(3) y(3) r(3) show ?thesis by (simp add: add.assoc)
  next
    case False
    with l(3) x(3) y(3) r(3) have "r \<noteq> PyInt (int (i + (j + k)))" by blast
    with False l(2) r(2) show ?thesis by (simp add: whole_number_def add.assoc)
  qed
  then show ?thesis
    by (simp add: add3_left_def add3_right_def ISO8601_add_def bind_err_def x(1) l(1) y(1) r(1)
          add.assoc)
qed

lemma add3_integer_fields:
  assumes "add3_left a b c = Inr l" and "add3_right a b c = Inr r"
  shows "years l = years r \<and> months l = months r \<and> days l = days r
         \<and> hours l = hours r \<and> minutes l = minutes r"
  using assms
  by (auto simp: add3_left_def add3_right_def ISO8601_add_def bind_err_def split: sum.splits)

lemma parse_PT30H:
  "parse ''PT30H'' = Inr \<lparr>years = 0, months = 0, days = 0, hours = 30, minutes = 0,
                          seconds = PyFloat (Finite 0)\<rparr>"
  "parse ''PT60H'' = Inr \<lparr>years = 0, months = 0, days = 0, hours = 60, minutes = 0,
                          seconds = PyFloat (Finite 0)\<rparr>"
  by (simp_all add: parse_simps round_mag_0)


text \<open>
  C5 (as the code has it). Addition of durations is commutative and is the sum of each
  component with no carry between units. It is associative on the five integer
  components, and on the whole duration when the seconds are whole numbers whose sum is
  below \<open>2\<^sup>5\<^sup>3\<close>. \<^verbatim>\<open>parse("PT30H") + parse("PT30H")\<close> is \<^verbatim>\<open>parse("PT60H")\<close>.
\<close>

theorem duration_addition:
  "ISO8601_add a b = ISO8601_add b a
   \<and> (ISO8601_add a b = Inr s \<longrightarrow>
        years s = years a + years b \<and> months s = months a + months b
        \<and> days s = days a + days b \<and> hours s = hours a + hours b
        \<and> minutes s = minutes a + minutes b
        \<and> py_add (seconds a) (seconds b) = Inr (seconds s))
   \<and> (add3_left a b c = Inr l \<and> add3_right a b c = Inr r \<longrightarrow>
        years l = years r \<and> months l = months r \<and> days l = days r
        \<and> hours l = hours r \<and> minutes l = minutes r)
   \<and> (whole_number (seconds a) i \<and> whole_number (seconds b) j \<and> whole_number (seconds c) k
        \<and> i + j + k < 2 ^ 53 \<longrightarrow> add3_left a b c = add3_right a b c)
   \<and> (parse ''PT30H'' = Inr x \<and> parse ''PT60H'' = Inr y \<longrightarrow> ISO8601_add x x = Inr y)"
proof -
  have p1: "ISO8601_add a b = ISO8601_add b a" by (rule ISO8601_add_commute)
  have p2: "ISO8601_add a b = Inr s \<longrightarrow>
        years s = years a + years b \<and> months s = months a + months b
        \<and> days s = days a + days b \<and> hours s = hours a + hours b
        \<and> minutes s = minutes a + minutes b
        \<and> py_add (seconds a) (seconds b) = Inr (seconds s)"
    using ISO8601_add_fields [of a b s] by simp
  have p3: "add3_left a b c = Inr l \<and> add3_right a b c = Inr r \<longrightarrow>
        years l = years r \<and> months l = months r \<and> days l = days r
        \<and> hours l = hours r \<and> minutes l = minutes r"
    using add3_integer_fields [of a b c l r] by simp
  have p4: "whole_number (seconds a) i \<and> whole_number (seconds b) j
        \<and> whole_number (seconds c) k \<and> i + j + k < 2 ^ 53 \<longrightarrow>
        add3_left a b c = add3_right a b c"
    using add3_whole [of a i b j c k] by simp
  have p5: "parse ''PT30H'' = Inr x \<and> parse ''PT60H'' = Inr y \<longrightarrow> ISO8601_add x x = Inr y"
    by (auto simp: parse_PT30H ISO8601_add_def bind_err_def round_double_def round_mag_0)
  show ?thesis using p1 p2 p3 p4 p5 by (intro conjI)
qed

theorem duration_addition_witness:
  "ISO8601_add
     \<lparr>years = 0, months = 0, days = 0, hours = 30, minutes = 0, seconds = PyFloat (Finite 0)\<rparr>
     \<lparr>years = 0, months = 0, days = 0, hours = 30, minutes = 0, seconds = PyFloat (Finite 0)\<rparr>
   = Inr \<lparr>years = 0, months = 0, days = 0, hours = 60, minutes = 0, seconds = PyFloat (Finite 0)\<rparr>
   \<and> add3_left
     \<lparr>years = 0, months = 0, days = 0, hours = 30, minutes = 0, seconds = PyFloat (Finite 0)\<rparr>
     \<lparr>years = 0, months = 0, days = 0, hours = 30, minutes = 0, seconds = PyFloat (Finite 0)\<rparr>
     \<lparr>years = 0, months = 0, days = 0, hours = 60, minutes = 0, seconds = PyFloat (Finite 0)\<rparr>
   = Inr \<lparr>years = 0, months = 0, days = 0, hours = 120, minutes = 0, seconds = PyFloat (Finite 0)\<rparr>
   \<and> add3_right
     \<lparr>years = 0, months = 0, days = 0, hours = 30, minutes = 0, seconds = PyFloat (Finite 0)\<rparr>
     \<lparr>years = 0, months = 0, days = 0, hours = 30, minutes = 0, seconds = PyFloat (Finite 0)\<rparr>
     \<lparr>years = 0, months = 0, days = 0, hours = 60, minutes = 0, seconds = PyFloat (Finite 0)\<rparr>
   = Inr \<lparr>years = 0, months = 0, days = 0, hours = 120, minutes = 0, seconds = PyFloat (Finite 0)\<rparr>"
  using duration_addition
    [of "\<lparr>years = 0, months = 0, days = 0, hours = 30, minutes = 0, seconds = PyFloat (Finite 0)\<rparr>"
        "\<lparr>years = 0, months = 0, days = 0, hours = 30, minutes = 0, seconds = PyFloat (Finite 0)\<rparr>"
        "\<lparr>years = 0, months = 0, days = 0, hours = 60, minutes = 0, seconds = PyFloat (Finite 0)\<rparr>"
        "\<lparr>years = 0, months = 0, days = 0, hours = 60, minutes = 0, seconds = PyFloat (Finite 0)\<rparr>"
        "\<lparr>years = 0, months = 0, days = 0, hours = 120, minutes = 0, seconds = PyFloat (Finite 0)\<rparr>"
        "\<lparr>years = 0, months = 0, days = 0, hours = 120, minutes = 0, seconds = PyFloat (Finite 0)\<rparr>"
        0 0 0
        "\<lparr>years = 0, months = 0, days = 0, hours = 30, minutes = 0, seconds = PyFloat (Finite 0)\<rparr>"
        "\<lparr>years = 0, months = 0, days = 0, hours = 60, minutes = 0, seconds = PyFloat (Finite 0)\<rparr>"]
  by (simp add: parse_PT30H add3_left_def add3_right_def ISO8601_add_def bind_err_def
        round_double_def round_mag_0 whole_number_def)

lemmas round_small =
  round_mag_eval [where e = "-4"] round_mag_eval [where e = "-3"]
  round_mag_eval [where e = "-2"] round_mag_eval [where e = "-1"]

lemmas round_simps = pow2_def round_half_even_def Let_def floor_rat_numeral

lemma parse_tenths:
  "parse ''PT0.1S'' = Inr \<lparr>years = 0, months = 0, days = 0, hours = 0, minutes = 0,
       seconds = PyFloat (Finite (3602879701896397 / 36028797018963968))\<rparr>"
  "parse ''PT0.2S'' = Inr \<lparr>years = 0, months = 0, days = 0, hours = 0, minutes = 0,
       seconds = PyFloat (Finite (3602879701896397 / 18014398509481984))\<rparr>"
  "parse ''PT0.3S'' = Inr \<lparr>years = 0, months = 0, days = 0, hours = 0, minutes = 0,
       seconds = PyFloat (Finite (5404319552844595 / 18014398509481984))\<rparr>"
  by (simp_all add: parse_simps round_mag_0 round_small round_simps)

text \<open>
  C5 as it is stated fails on fractional seconds: the seconds are floats, each sum is
  rounded, and \<open>(0.1 + 0.2) + 0.3\<close> is not \<open>0.1 + (0.2 + 0.3)\<close>.
\<close>

theorem fractional_seconds_counterexample:
  "parse ''PT0.1S'' = Inr \<lparr>years = 0, months = 0, days = 0, hours = 0, minutes = 0,
       seconds = PyFloat (Finite (3602879701896397 / 36028797018963968))\<rparr>
   \<and> parse ''PT0.2S'' = Inr \<lparr>years = 0, months = 0, days = 0, hours = 0, minutes = 0,
       seconds = PyFloat (Finite (3602879701896397 / 18014398509481984))\<rparr>
   \<and> parse ''PT0.3S'' = Inr \<lparr>years = 0, months = 0, days = 0, hours = 0, minutes = 0,
       seconds = PyFloat (Finite (5404319552844595 / 18014398509481984))\<rparr>
   \<and> add3_left
       \<lparr>years = 0, months = 0, days = 0, hours = 0, minutes = 0,
          seconds = PyFloat (Finite (3602879701896397 / 36028797018963968))\<rparr>
       \<lparr>years = 0, months = 0, days = 0, hours = 0, minutes = 0,
          seconds = PyFloat (Finite (3602879701896397 / 18014398509481984))\<rparr>
       \<lparr>years = 0, months = 0, days = 0, hours = 0, minutes = 0,
          seconds = PyFloat (Finite (5404319552844595 / 18014398509481984))\<rparr>
     = Inr \<lparr>years = 0, months = 0, days = 0, hours = 0, minutes = 0,
          seconds = PyFloat (Finite (1351079888211149 / 2251799813685248))\<rparr>
   \<and> add3_right
       \<lparr>years = 0, months = 0, days = 0, hours = 0, minutes = 0,
          seconds = PyFloat (Finite (3602879701896397 / 36028797018963968))\<rparr>
       \<lparr>years = 0, months = 0, days = 0, hours = 0, minutes = 0,
          seconds = PyFloat (Finite (3602879701896397 / 18014398509481984))\<rparr>
       \<lparr>years = 0, months = 0, days = 0, hours = 0, minutes = 0,
          seconds = PyFloat (Finite (5404319552844595 / 18014398509481984))\<rparr>
     = Inr \<lparr>years = 0, months = 0, days = 0, hours = 0, minutes = 0,
          seconds = PyFloat (Finite (5404319552844595 / 9007199254740992))\<rparr>
   \<and> (1351079888211149 / 2251799813685248 :: rat) \<noteq> 5404319552844595 / 9007199254740992"
  by (simp add: parse_tenths add3_left_def add3_right_def ISO8601_add_def bind_err_def
        round_double_def round_small round_simps)

subsection \<open>The watcher\<close>

text \<open>
  The loop of the pass looks at the nodes in index order and stops at the first one that is
  not Finished.
\<close>

lemma check_nodes_drop:
  "check_nodes i nodes =
     (case dropWhile (\<lambda>n. status n = Finished) nodes of
        [] \<Rightarrow> AllFinished
      | n # _ \<Rightarrow> if status n = Running then SawRunning
                 else SawErrored (i + length (takeWhile (\<lambda>n. status n = Finished) nodes)))"
proof (induction nodes arbitrary: i)
  case Nil
  show ?case by simp
next
  case (Cons n ns)
  show ?case
  proof (cases "status n")
    case Finished
    then have a: "check_nodes i (n # ns) = check_nodes (Suc i) ns"
      and b: "dropWhile (\<lambda>n. status n = Finished) (n # ns)
                = dropWhile (\<lambda>n. status n = Finished) ns"
      and c: "length (takeWhile (\<lambda>n. status n = Finished) (n # ns))
                = Suc (length (takeWhile (\<lambda>n. status n = Finished) ns))"
      by simp_all
    show ?thesis
      by (simp only: a b c Cons.IH [of "Suc i"] add_Suc add_Suc_right)
  next
    case Running
    then show ?thesis by simp
  next
    case Errored
    then show ?thesis by simp
  qed
qed

lemma first_unfinished:
  assumes "dropWhile (\<lambda>n. status n = Finished) nodes = n # rest"
  defines "k \<equiv> length (takeWhile (\<lambda>n. status n = Finished) nodes)"
  shows "k < length nodes" and "nodes ! k = n" and "\<forall>j<k. status (nodes ! j) = Finished"
    and "status n \<noteq> Finished"
proof -
  let ?P = "\<lambda>n. status n = Finished"
  have split: "nodes = takeWhile ?P nodes @ n # rest"
    using assms(1) takeWhile_dropWhile_id [of ?P nodes] by simp
  then have "length nodes = k + Suc (length rest)"
    unfolding k_def by (metis length_append length_Cons)
  then show "k < length nodes" by simp
  show "nodes ! k = n"
    unfolding k_def using split by (metis nth_append_length)
  show "\<forall>j<k. status (nodes ! j) = Finished"
  proof (intro allI impI)
    fix j assume j: "j < k"
    then have "takeWhile ?P nodes ! j = nodes ! j"
      unfolding k_def by (rule takeWhile_nth)
    moreover have "takeWhile ?P nodes ! j \<in> set (takeWhile ?P nodes)"
      using j unfolding k_def by (rule nth_mem)
    ultimately show "status (nodes ! j) = Finished"
      using set_takeWhileD by fastforce
  qed
  have "hd (dropWhile ?P nodes) = n" using assms(1) by simp
  moreover have "dropWhile ?P nodes \<noteq> []" using assms(1) by simp
  ultimately show "status n \<noteq> Finished"
    using hd_dropWhile [of ?P nodes] by simp
qed


text \<open>
  C9 (as the code has it). On a pass in which some packager node reports Errored, the
  merge is not called and no file is written: the state of the node is left as it was.
  The nodes are examined in index order and the first one that is not Finished decides.
  When it reports Errored, the pass raises the RuntimeError that names its index and the
  thread loop leaves the node Errored; when it reports Running, the pass returns at once,
  nothing is raised and the node stays Running.
\<close>

theorem errored_node_pass:
  assumes "n \<in> set nodes" and "status n = Errored"
  shows "let k = length (takeWhile (\<lambda>n. status n = Finished) nodes);
             raised = (if status (nodes ! k) = Errored then Some (RuntimeError k) else None)
         in k < length nodes \<and> status (nodes ! k) \<noteq> Finished
            \<and> (\<forall>j<k. status (nodes ! j) = Finished)
            \<and> thread_single_pass cfg cwd dest_dir nodes st = (raised, st)
            \<and> (node_status st = Running \<longrightarrow>
                 tick cfg cwd dest_dir nodes st
                   = (raised, if raised = None then st else st\<lparr>node_status := Errored\<rparr>))"
proof -
  let ?P = "\<lambda>n. status n = Finished"
  have "\<not> ?P n" using assms(2) by simp
  then have "\<not> (\<forall>x\<in>set nodes. ?P x)" using assms(1) by blast
  then have "dropWhile ?P nodes \<noteq> []" by simp
  then obtain m rest where d: "dropWhile ?P nodes = m # rest"
    by (cases "dropWhile ?P nodes") auto
  note f = first_unfinished [OF d]
  have m: "status m = Running \<or> status m = Errored"
    using f(4) by (cases "status m") auto
  have pass: "thread_single_pass cfg cwd dest_dir nodes st
                = (if status m = Errored
                   then Some (RuntimeError (length (takeWhile ?P nodes))) else None, st)"
    using m by (auto simp: thread_single_pass_def check_nodes_drop d)
  show ?thesis
    using f(1) f(3) f(4) pass
    by (auto simp: Let_def f(2) tick_def)
qed

theorem errored_node_pass_witness:
  "thread_single_pass
     \<lparr>manifest_format = [DASH], streaming_mode = VOD, dash_output = ''dash.mpd''\<rparr> ''/work'' ''out''
     [\<lparr>output_dir = ''jobs/0'', status = Finished\<rparr>,
      \<lparr>output_dir = ''jobs/1'', status = Errored\<rparr>,
      \<lparr>output_dir = ''jobs/2'', status = Running\<rparr>]
     \<lparr>node_status = Running, files = Map.empty, called = []\<rparr>
   = (Some (RuntimeError 1), \<lparr>node_status = Running, files = Map.empty, called = []\<rparr>)
   \<and> tick
     \<lparr>manifest_format = [DASH], streaming_mode = VOD, dash_output = ''dash.mpd''\<rparr> ''/work'' ''out''
     [\<lparr>output_dir = ''jobs/0'', status = Finished\<rparr>,
      \<lparr>output_dir = ''jobs/1'', status = Errored\<rparr>,
      \<lparr>output_dir = ''jobs/2'', status = Running\<rparr>]
     \<lparr>node_status = Running, files = Map.empty, called = []\<rparr>
   = (Some (RuntimeError 1), \<lparr>node_status = Errored, files = Map.empty, called = []\<rparr>)"
  using errored_node_pass
    [of "\<lparr>output_dir = ''jobs/1'', status = Errored\<rparr>"
        "[\<lparr>output_dir = ''jobs/0'', status = Finished\<rparr>,
          \<lparr>output_dir = ''jobs/1'', status = Errored\<rparr>,
          \<lparr>output_dir = ''jobs/2'', status = Running\<rparr>]"
        "\<lparr>manifest_format = [DASH], streaming_mode = VOD, dash_output = ''dash.mpd''\<rparr>"
        "''/work''" "''out''"
        "\<lparr>node_status = Running, files = Map.empty, called = []\<rparr>"]
  by (simp add: Let_def)

text \<open>
  C9 as it is stated fails when a node of lower index is still Running: with node 0
  Running and node 1 Errored the pass returns without raising, and the node is not Errored
  after the tick.
\<close>

theorem errored_behind_running_counterexample:
  "tick
     \<lparr>manifest_format = [DASH], streaming_mode = VOD, dash_output = ''dash.mpd''\<rparr> ''/work'' ''out''
     [\<lparr>output_dir = ''jobs/0'', status = Running\<rparr>,
      \<lparr>output_dir = ''jobs/1'', status = Errored\<rparr>,
      \<lparr>output_dir = ''jobs/2'', status = Finished\<rparr>]
     \<lparr>node_status = Running, files = Map.empty, called = []\<rparr>
   = (None, \<lparr>node_status = Running, files = Map.empty, called = []\<rparr>)"
  by (simp add: tick_def thread_single_pass_def)

end
